theory Spec2Isabelle
  imports Main "HOL-Library.Sublist"
begin

section \<open>The drawing state of one room (drawingState.ts)\<close>

text \<open>
  The server keeps, for every room, one \<open>DrawingState\<close>: a \<open>Map\<close> from stroke id to
  stroke and an array of operations that is only ever pushed to. This theory embeds that
  class. What the class takes from its environment is made an argument of the operation
  that consumes it: the string \<open>uuidv4()\<close> returns and the number \<open>Date.now()\<close>
  returns come first in the argument list, the source's own arguments follow, the state
  before the call comes last, and the result is the returned value paired with the state
  after the call.
\<close>

subsection \<open>Data\<close>

text \<open>
  \<open>Point = {x, y, t}\<close> and the \<open>width\<close> of a stroke are JavaScript numbers that the
  class stores and never computes with; their type is the parameter \<open>'n\<close>. The three
  arguments of \<open>Point\<close> are \<open>x\<close>, \<open>y\<close>, \<open>t\<close> in this order.
\<close>

datatype 'n point = Point 'n 'n 'n

datatype tool = Brush | Eraser

text \<open>The field \<open>id\<close> of a stroke is \<open>stroke_id\<close> here (\<open>id\<close> is the identity of HOL).\<close>

record 'n stroke =
  stroke_id :: string
  userId :: string
  tool :: tool
  color :: string
  width :: 'n
  points :: "'n point list"
  complete :: bool

text \<open>
  The tagged union \<open>Operation\<close>. Arguments, in order:
  \<open>StrokeOp strokeId timestamp userId\<close>,
  \<open>UndoOp id targetStrokeId timestamp userId\<close>,
  \<open>RedoOp id targetUndoOpId timestamp userId\<close>.
\<close>

datatype operation =
    StrokeOp string int string
  | UndoOp string string int string
  | RedoOp string string int string

text \<open>
  A JavaScript \<open>Map\<close> iterates in insertion order, and \<open>getVisibleStrokes\<close> iterates
  it, so the map is an association list in insertion order. \<open>Map.get\<close> is \<open>map_of\<close>;
  \<open>Map.set\<close> replaces the value of a key that is present where it stands and puts a new
  key at the end.
\<close>

fun map_set ::
  "'k \<Rightarrow> 'v \<Rightarrow> ('k \<times> 'v) list \<Rightarrow> ('k \<times> 'v) list" where
  "map_set k v [] = [(k, v)]"
| "map_set k v ((k', v') # kvs) =
     (if k' = k then (k, v) # kvs else (k', v') # map_set k v kvs)"

record 'n drawing_state =
  strokes :: "(string \<times> 'n stroke) list"
  operations :: "operation list"

definition init_state :: "'n drawing_state" where
  "init_state = \<lparr>strokes = [], operations = []\<rparr>"

subsection \<open>Visibility\<close>

text \<open>The three predicates on operations that the source writes as arrow functions.\<close>

fun is_undo_with_id :: "string \<Rightarrow> operation \<Rightarrow> bool" where
  "is_undo_with_id i (UndoOp j _ _ _) = (j = i)"
| "is_undo_with_id i _ = False"

fun is_redo_of :: "string \<Rightarrow> operation \<Rightarrow> bool" where
  "is_redo_of i (RedoOp _ j _ _) = (j = i)"
| "is_redo_of i _ = False"

fun is_stroke_op :: "operation \<Rightarrow> bool" where
  "is_stroke_op (StrokeOp _ _ _) = True"
| "is_stroke_op _ = False"

text \<open>
  One iteration of the loop of \<open>isStrokeVisible\<close> on the pair
  \<open>(undoCount, redoCount)\<close>; \<open>ops\<close> is the whole log, which the body searches for the
  undo a redo names.
\<close>

fun count_step ::
  "operation list \<Rightarrow> string \<Rightarrow> operation \<Rightarrow> nat \<times> nat \<Rightarrow> nat \<times> nat" where
  "count_step ops strokeId (UndoOp i target ts u) (undoCount, redoCount) =
     (if target = strokeId then (undoCount + 1, redoCount) else (undoCount, redoCount))"
| "count_step ops strokeId (RedoOp i targetUndoOpId ts u) (undoCount, redoCount) =
     (case List.find (is_undo_with_id targetUndoOpId) ops of
        Some (UndoOp j target ts' u') \<Rightarrow>
          if target = strokeId then (undoCount, redoCount + 1) else (undoCount, redoCount)
      | _ \<Rightarrow> (undoCount, redoCount))"
| "count_step ops strokeId (StrokeOp s ts u) (undoCount, redoCount) = (undoCount, redoCount)"

definition visibility_counts :: "operation list \<Rightarrow> string \<Rightarrow> nat \<times> nat" where
  "visibility_counts ops strokeId = fold (count_step ops strokeId) ops (0, 0)"

definition isStrokeVisible :: "'n drawing_state \<Rightarrow> string \<Rightarrow> bool" where
  "isStrokeVisible st strokeId =
     (case visibility_counts (operations st) strokeId of
        (undoCount, redoCount) \<Rightarrow> undoCount \<le> redoCount)"

subsection \<open>Mutating operations\<close>

definition createStroke ::
  "string \<Rightarrow> int \<Rightarrow> string \<Rightarrow> tool \<Rightarrow> string \<Rightarrow> 'n \<Rightarrow> 'n drawing_state
     \<Rightarrow> 'n stroke \<times> 'n drawing_state" where
  "createStroke uuid now user a_tool a_color a_width st =
     (let stroke = \<lparr>stroke_id = uuid, userId = user, tool = a_tool, color = a_color,
                     width = a_width, points = [], complete = False\<rparr>
      in (stroke,
          st\<lparr>strokes := map_set uuid stroke (strokes st),
             operations := operations st @ [StrokeOp uuid now user]\<rparr>))"

text \<open>
  \<open>stroke.points.push(...points)\<close> and \<open>stroke.complete = true\<close> change the object the
  map holds; in the model the entry of the map is replaced where it stands.
\<close>

definition appendPoints ::
  "string \<Rightarrow> 'n point list \<Rightarrow> 'n drawing_state \<Rightarrow> bool \<times> 'n drawing_state" where
  "appendPoints strokeId pts st =
     (case map_of (strokes st) strokeId of
        None \<Rightarrow> (False, st)
      | Some stroke \<Rightarrow>
          (True, st\<lparr>strokes :=
                      map_set strokeId (stroke\<lparr>points := points stroke @ pts\<rparr>) (strokes st)\<rparr>))"

definition completeStroke :: "string \<Rightarrow> 'n drawing_state \<Rightarrow> bool \<times> 'n drawing_state" where
  "completeStroke strokeId st =
     (case map_of (strokes st) strokeId of
        None \<Rightarrow> (False, st)
      | Some stroke \<Rightarrow>
          (True, st\<lparr>strokes := map_set strokeId (stroke\<lparr>complete := True\<rparr>) (strokes st)\<rparr>))"

text \<open>\<open>undoStroke\<close> returns the id of the new undo operation, or \<open>null\<close> (\<open>None\<close>).\<close>

definition undoStroke ::
  "string \<Rightarrow> int \<Rightarrow> string \<Rightarrow> string \<Rightarrow> 'n drawing_state
     \<Rightarrow> string option \<times> 'n drawing_state" where
  "undoStroke uuid now user targetStrokeId st =
     (case map_of (strokes st) targetStrokeId of
        None \<Rightarrow> (None, st)
      | Some stroke \<Rightarrow>
          if \<not> isStrokeVisible st targetStrokeId then (None, st)
          else (Some uuid,
                st\<lparr>operations := operations st @ [UndoOp uuid targetStrokeId now user]\<rparr>))"

definition redoStroke ::
  "string \<Rightarrow> int \<Rightarrow> string \<Rightarrow> string \<Rightarrow> 'n drawing_state \<Rightarrow> bool \<times> 'n drawing_state" where
  "redoStroke uuid now user targetUndoOpId st =
     (case List.find (is_undo_with_id targetUndoOpId) (operations st) of
        None \<Rightarrow> (False, st)
      | Some undoOp \<Rightarrow>
          if list_ex (is_redo_of targetUndoOpId) (operations st) then (False, st)
          else (True,
                st\<lparr>operations := operations st @ [RedoOp uuid targetUndoOpId now user]\<rparr>))"

subsection \<open>Queries\<close>

text \<open>
  \<open>Array.prototype.indexOf\<close>: the first index of the element, or \<open>-1\<close>.
\<close>

fun indexOf :: "'a list \<Rightarrow> 'a \<Rightarrow> int" where
  "indexOf [] a = -1"
| "indexOf (b # bs) a =
     (if b = a then 0 else (let i = indexOf bs a in if i < 0 then -1 else i + 1))"

text \<open>
  The stroke ids of the stroke operations, in the order of the log: \<open>filter\<close>, then
  \<open>map\<close>. The filter keeps stroke operations only, so the second branch of the
  \<open>case\<close> is never taken.
\<close>

definition strokeOrder :: "operation list \<Rightarrow> string list" where
  "strokeOrder ops =
     map (\<lambda>op. case op of StrokeOp s _ _ \<Rightarrow> s | _ \<Rightarrow> []) (filter is_stroke_op ops)"

text \<open>
  \<open>Array.prototype.sort\<close> is a stable sort, and the comparator is the difference of two
  keys, so the call is the stable sort by the key \<open>strokeOrder.indexOf(a.id)\<close>.
\<close>

definition getVisibleStrokes :: "'n drawing_state \<Rightarrow> 'n stroke list" where
  "getVisibleStrokes st =
     (let result = map snd (filter (\<lambda>(strokeId, stroke). isStrokeVisible st strokeId) (strokes st))
      in sort_key (\<lambda>a. indexOf (strokeOrder (operations st)) (stroke_id a)) result)"

definition getLastVisibleStrokeByUser :: "'n drawing_state \<Rightarrow> string \<Rightarrow> string option" where
  "getLastVisibleStrokeByUser st user =
     (let visibleStrokes = filter (\<lambda>s. userId s = user \<and> complete s) (getVisibleStrokes st)
      in if length visibleStrokes > 0
         then Some (stroke_id (visibleStrokes ! (length visibleStrokes - 1)))
         else None)"

subsection \<open>Runs\<close>

text \<open>
  A command is one call of a mutating method together with what the environment
  supplies to it. The arguments are those of the operation of the same name, state
  excepted.
\<close>

datatype 'n command =
    CreateStroke string int string tool string 'n
  | AppendPoints string "'n point list"
  | CompleteStroke string
  | UndoStroke string int string string
  | RedoStroke string int string string

fun exec :: "'n command \<Rightarrow> 'n drawing_state \<Rightarrow> 'n drawing_state" where
  "exec (CreateStroke uuid now user a_tool a_color a_width) st =
     snd (createStroke uuid now user a_tool a_color a_width st)"
| "exec (AppendPoints strokeId pts) st = snd (appendPoints strokeId pts st)"
| "exec (CompleteStroke strokeId) st = snd (completeStroke strokeId st)"
| "exec (UndoStroke uuid now user target) st = snd (undoStroke uuid now user target st)"
| "exec (RedoStroke uuid now user target) st = snd (redoStroke uuid now user target st)"

definition run :: "'n command list \<Rightarrow> 'n drawing_state \<Rightarrow> 'n drawing_state" where
  "run cs st = fold exec cs st"

text \<open>
  The ids a state holds: the keys of the map, the stroke ids and the ids of the undo and
  redo operations of the log. All of them came from \<open>uuidv4()\<close>. What is assumed of
  \<open>uuidv4()\<close> is that it never returns a string it returned before: \<open>fresh\<close>.
\<close>

fun op_own_id :: "operation \<Rightarrow> string" where
  "op_own_id (StrokeOp s _ _) = s"
| "op_own_id (UndoOp i _ _ _) = i"
| "op_own_id (RedoOp i _ _ _) = i"

definition issued_ids :: "'n drawing_state \<Rightarrow> string list" where
  "issued_ids st = map fst (strokes st) @ map op_own_id (operations st)"

definition fresh :: "'n drawing_state \<Rightarrow> string \<Rightarrow> bool" where
  "fresh st uuid = (uuid \<notin> set (issued_ids st))"

fun uuid_fresh_for :: "'n drawing_state \<Rightarrow> 'n command \<Rightarrow> bool" where
  "uuid_fresh_for st (CreateStroke uuid _ _ _ _ _) = fresh st uuid"
| "uuid_fresh_for st (UndoStroke uuid _ _ _) = fresh st uuid"
| "uuid_fresh_for st (RedoStroke uuid _ _ _) = fresh st uuid"
| "uuid_fresh_for st _ = True"

fun valid_run :: "'n command list \<Rightarrow> 'n drawing_state \<Rightarrow> bool" where
  "valid_run [] st = True"
| "valid_run (c # cs) st = (uuid_fresh_for st c \<and> valid_run cs (exec c st))"

subsection \<open>The two counters in closed form\<close>

text \<open>
  What the loop of \<open>isStrokeVisible\<close> adds up, operation by operation: an undo counts
  for the stroke it targets; a redo counts for the stroke targeted by the first undo of
  the log that carries the id the redo names (the result of \<open>find\<close>).
\<close>

fun targets_stroke :: "string \<Rightarrow> operation \<Rightarrow> bool" where
  "targets_stroke s (UndoOp i target ts u) = (target = s)"
| "targets_stroke s _ = False"

definition redo_target :: "operation list \<Rightarrow> string \<Rightarrow> string option" where
  "redo_target ops targetUndoOpId =
     (case List.find (is_undo_with_id targetUndoOpId) ops of
        Some (UndoOp j target ts u) \<Rightarrow> Some target
      | _ \<Rightarrow> None)"

fun restores :: "operation list \<Rightarrow> string \<Rightarrow> operation \<Rightarrow> bool" where
  "restores ops s (RedoOp i targetUndoOpId ts u) = (redo_target ops targetUndoOpId = Some s)"
| "restores ops s _ = False"

definition undoCount :: "operation list \<Rightarrow> string \<Rightarrow> nat" where
  "undoCount ops s = length (filter (targets_stroke s) ops)"

definition redoCount :: "operation list \<Rightarrow> string \<Rightarrow> nat" where
  "redoCount ops s = length (filter (restores ops s) ops)"

subsection \<open>The counters as the specification words them\<close>

text \<open>
  \<open>undoCount\<close> counts the undo operations that target the stroke; \<open>redoCount\<close> counts
  the redo operations whose target undo operation targets the stroke.
\<close>

definition spec_undoCount :: "operation list \<Rightarrow> string \<Rightarrow> nat" where
  "spec_undoCount ops s =
     length (filter (\<lambda>op. case op of UndoOp i target ts u \<Rightarrow> target = s | _ \<Rightarrow> False) ops)"

definition spec_redoCount :: "operation list \<Rightarrow> string \<Rightarrow> nat" where
  "spec_redoCount ops s =
     length (filter (\<lambda>op. case op of
                RedoOp i targetUndoOpId ts u \<Rightarrow>
                  (\<exists>undoOp \<in> set ops. case undoOp of
                      UndoOp j target ts' u' \<Rightarrow> j = targetUndoOpId \<and> target = s
                    | _ \<Rightarrow> False)
              | _ \<Rightarrow> False) ops)"

subsection \<open>Well-formed states\<close>

text \<open>
  What every state the class can reach satisfies: the ids of the log are pairwise
  different, every redo names an undo of the log, the keys of the map are the stroke ids
  of the log in the order of the log, and every stroke is stored under its own id.
\<close>

definition ids_distinct :: "operation list \<Rightarrow> bool" where
  "ids_distinct ops = distinct (map op_own_id ops)"

definition redos_name_undos :: "operation list \<Rightarrow> bool" where
  "redos_name_undos ops =
     list_all (\<lambda>op. case op of RedoOp i targetUndoOpId ts u \<Rightarrow>
                        list_ex (is_undo_with_id targetUndoOpId) ops
                     | _ \<Rightarrow> True) ops"

definition store_follows_log :: "'n drawing_state \<Rightarrow> bool" where
  "store_follows_log st =
     (map fst (strokes st) = strokeOrder (operations st)
      \<and> list_all (\<lambda>(strokeId, stroke). stroke_id stroke = strokeId) (strokes st))"

definition wf_state :: "'n drawing_state \<Rightarrow> bool" where
  "wf_state st =
     (ids_distinct (operations st) \<and> redos_name_undos (operations st) \<and> store_follows_log st)"

subsection \<open>Growth of the store\<close>

text \<open>
  Every stroke of the first state is in the second, with its points extended at the end.
\<close>

definition store_grows :: "'n drawing_state \<Rightarrow> 'n drawing_state \<Rightarrow> bool" where
  "store_grows st st' =
     (\<forall>strokeId stroke. map_of (strokes st) strokeId = Some stroke \<longrightarrow>
        (\<exists>stroke'. map_of (strokes st') strokeId = Some stroke'
           \<and> prefix (points stroke) (points stroke')))"

subsection \<open>What calls push on the log\<close>

text \<open>What a call pushes on the log: nothing, or one operation.\<close>

fun emitted :: "'n drawing_state \<Rightarrow> 'n command \<Rightarrow> operation list" where
  "emitted st (CreateStroke uuid now user a_tool a_color a_width) = [StrokeOp uuid now user]"
| "emitted st (AppendPoints strokeId pts) = []"
| "emitted st (CompleteStroke strokeId) = []"
| "emitted st (UndoStroke uuid now user target) =
     (if map_of (strokes st) target \<noteq> None \<and> isStrokeVisible st target
      then [UndoOp uuid target now user] else [])"
| "emitted st (RedoStroke uuid now user t) =
     (if list_ex (is_undo_with_id t) (operations st) \<and> \<not> list_ex (is_redo_of t) (operations st)
      then [RedoOp uuid t now user] else [])"

text \<open>
  A new operation is grounded in a log when, if it is a redo, the undo it names is in
  the log.
\<close>

fun grounded :: "operation list \<Rightarrow> operation \<Rightarrow> bool" where
  "grounded ops (RedoOp i tu ts u) = list_ex (is_undo_with_id tu) ops"
| "grounded ops _ = True"

text \<open>
  The undos of a stroke that are open, as a difference, and what operations pushed on
  the log add to it.
\<close>

definition open_undos :: "operation list \<Rightarrow> string \<Rightarrow> int" where
  "open_undos ops s = int (undoCount ops s) - int (redoCount ops s)"

definition net :: "operation list \<Rightarrow> string \<Rightarrow> operation list \<Rightarrow> int" where
  "net ops s es =
     int (length (filter (targets_stroke s) es)) - int (length (filter (restores ops s) es))"

text \<open>
  An undo of the log that no redo of the log names, targeting the stroke.
\<close>

fun pending_undo :: "operation list \<Rightarrow> string \<Rightarrow> operation \<Rightarrow> bool" where
  "pending_undo ops s (UndoOp i target ts u) = (target = s \<and> \<not> list_ex (is_redo_of i) ops)"
| "pending_undo ops s _ = False"

text \<open>
  For every stroke, the undos exceed the restoring redos by one at most, and where they
  do, one of the undos is still open.
\<close>

definition balanced :: "operation list \<Rightarrow> bool" where
  "balanced ops =
     (\<forall>s. undoCount ops s \<le> redoCount ops s + 1
        \<and> (redoCount ops s < undoCount ops s \<longrightarrow> list_ex (pending_undo ops s) ops))"

subsection \<open>Two calls\<close>

text \<open>The id a call draws from \<open>uuidv4()\<close> and the id its caller names.\<close>

fun uuid_of :: "'n command \<Rightarrow> string option" where
  "uuid_of (CreateStroke uuid now user a_tool a_color a_width) = Some uuid"
| "uuid_of (UndoStroke uuid now user target) = Some uuid"
| "uuid_of (RedoStroke uuid now user t) = Some uuid"
| "uuid_of _ = None"

fun named_id :: "'n command \<Rightarrow> string option" where
  "named_id (CreateStroke uuid now user a_tool a_color a_width) = None"
| "named_id (AppendPoints strokeId pts) = Some strokeId"
| "named_id (CompleteStroke strokeId) = Some strokeId"
| "named_id (UndoStroke uuid now user target) = Some target"
| "named_id (RedoStroke uuid now user t) = Some t"

text \<open>
  Two calls are apart when they draw different ids and neither names the id the other
  draws: a caller cannot name an id that has not been issued yet.
\<close>

definition ids_apart :: "'n command \<Rightarrow> 'n command \<Rightarrow> bool" where
  "ids_apart c1 c2 =
     ((uuid_of c1 \<noteq> None \<longrightarrow> uuid_of c1 \<noteq> uuid_of c2 \<and> uuid_of c1 \<noteq> named_id c2)
      \<and> (uuid_of c2 \<noteq> None \<longrightarrow> uuid_of c2 \<noteq> named_id c1))"

text \<open>An undo of a stroke meets a redo of an undo of the same stroke.\<close>

fun undo_meets_redo :: "'n drawing_state \<Rightarrow> 'n command \<Rightarrow> 'n command \<Rightarrow> bool" where
  "undo_meets_redo st (UndoStroke uuid now user target) (RedoStroke uuid' now' user' t) =
     (redo_target (operations st) t = Some target)"
| "undo_meets_redo st _ _ = False"

text \<open>
  What a call pushes on the log when another call, which pushed \<open>es\<close>, went before it.
\<close>

fun emitted_after :: "'n drawing_state \<Rightarrow> operation list \<Rightarrow> 'n command \<Rightarrow> operation list" where
  "emitted_after st es (UndoStroke uuid now user target) =
     (if map_of (strokes st) target \<noteq> None
         \<and> open_undos (operations st) target + net (operations st) target es \<le> 0
      then [UndoOp uuid target now user] else [])"
| "emitted_after st es (RedoStroke uuid now user t) =
     (if list_ex (is_undo_with_id t) (operations st)
         \<and> \<not> list_ex (is_redo_of t) (operations st)
         \<and> \<not> list_ex (is_redo_of t) es
      then [RedoOp uuid t now user] else [])"
| "emitted_after st es c = emitted st c"

subsection \<open>The strokes an author may undo\<close>

text \<open>
  The entries of the map that \<open>getLastVisibleStrokeByUser\<close> keeps: visible, by the
  author, complete.
\<close>

definition candidate :: "'n drawing_state \<Rightarrow> string \<Rightarrow> string \<times> 'n stroke \<Rightarrow> bool" where
  "candidate st user = (\<lambda>(strokeId, stroke).
     isStrokeVisible st strokeId \<and> userId stroke = user \<and> complete stroke)"

subsection \<open>Example states\<close>

text \<open>
  Two strokes by two authors; the second has one point and is complete.
\<close>

definition scenario_A :: "int drawing_state" where
  "scenario_A =
     run [CreateStroke ''s1'' 1 ''a1'' Brush ''#000000'' 4,
          CreateStroke ''s2'' 2 ''a2'' Eraser ''#ffffff'' 9,
          AppendPoints ''s2'' [Point 0 0 3],
          CompleteStroke ''s2''] init_state"

text \<open>The example state after the first author has undone the stroke of the second.\<close>

definition undone_state :: "int drawing_state" where
  "undone_state = run [UndoStroke ''u1'' 7 ''a1'' ''s2''] scenario_A"

text \<open>
  A continuation of the example state: more points, an undo across authors, a third
  stroke, the redo of the undo and a second redo of the same undo.
\<close>

definition later_cmds :: "int command list" where
  "later_cmds =
     [AppendPoints ''s2'' [Point 5 5 6],
      UndoStroke ''u1'' 7 ''a1'' ''s2'',
      CreateStroke ''s3'' 8 ''a1'' Brush ''#00ff00'' 1,
      RedoStroke ''r1'' 9 ''a2'' ''u1'',
      RedoStroke ''r2'' 10 ''a2'' ''u1'']"

text \<open>
  Three strokes, the second then undone; and the same three strokes with the first undone
  between the creations instead.
\<close>

definition scenario_B_cmds :: "int command list" where
  "scenario_B_cmds =
     [CreateStroke ''s1'' 1 ''a1'' Brush ''#000000'' 4,
      CreateStroke ''s2'' 2 ''a2'' Eraser ''#ffffff'' 9,
      CreateStroke ''s3'' 3 ''a1'' Brush ''#00ff00'' 1,
      UndoStroke ''u1'' 4 ''a1'' ''s2'']"

definition scenario_B2_cmds :: "int command list" where
  "scenario_B2_cmds =
     [CreateStroke ''s1'' 1 ''a1'' Brush ''#000000'' 4,
      UndoStroke ''u7'' 2 ''a2'' ''s1'',
      CreateStroke ''s2'' 3 ''a2'' Eraser ''#ffffff'' 9,
      CreateStroke ''s3'' 4 ''a1'' Brush ''#00ff00'' 1]"

text \<open>
  Two strokes by two authors; each author undoes the other's stroke, and the second
  author takes the first undo back.
\<close>

definition scenario_C_cmds :: "int command list" where
  "scenario_C_cmds =
     [CreateStroke ''s1'' 1 ''a1'' Brush ''#000000'' 4,
      CreateStroke ''s2'' 2 ''a2'' Eraser ''#ffffff'' 9,
      CompleteStroke ''s1'',
      UndoStroke ''u1'' 3 ''a1'' ''s2'',
      UndoStroke ''u2'' 4 ''a2'' ''s1'',
      RedoStroke ''r1'' 5 ''a2'' ''u1'']"

text \<open>
  Four strokes: two complete ones by two authors, a third, complete, by the first author
  and undone by the second, and a fourth by the first author that is still being drawn.
\<close>

definition scenario_L_cmds :: "int command list" where
  "scenario_L_cmds =
     [CreateStroke ''s1'' 1 ''a1'' Brush ''#000000'' 4,
      CompleteStroke ''s1'',
      CreateStroke ''s2'' 2 ''a2'' Eraser ''#ffffff'' 9,
      CompleteStroke ''s2'',
      CreateStroke ''s3'' 3 ''a1'' Brush ''#00ff00'' 1,
      CompleteStroke ''s3'',
      CreateStroke ''s4'' 4 ''a1'' Brush ''#0000ff'' 1,
      AppendPoints ''s4'' [Point 1 1 5],
      UndoStroke ''u1'' 6 ''a2'' ''s3'']"

section \<open>Properties\<close>

subsection \<open>The map and the log\<close>

lemma map_of_map_set: "map_of (map_set k v kvs) = (map_of kvs)(k \<mapsto> v)"
  by (induction kvs) (auto simp: fun_eq_iff)

lemma map_fst_map_set:
  "map fst (map_set k v kvs) = (if k \<in> set (map fst kvs) then map fst kvs else map fst kvs @ [k])"
proof (induction kvs)
  case Nil
  show ?case by simp
next
  case (Cons kv kvs)
  show ?case
  proof (cases "fst kv = k")
    case True
    then show ?thesis by (cases kv) simp
  next
    case False
    then show ?thesis using Cons.IH by (cases kv) simp
  qed
qed

lemma list_all_map_set:
  "list_all P kvs \<Longrightarrow> P (k, v) \<Longrightarrow> list_all P (map_set k v kvs)"
  by (induction kvs) auto

lemma strokeOrder_append:
  "strokeOrder (ops @ [op]) = strokeOrder ops @ (case op of StrokeOp s ts u \<Rightarrow> [s] | _ \<Rightarrow> [])"
  by (cases op) (simp_all add: strokeOrder_def)

lemma strokeOrder_subset: "set (strokeOrder ops) \<subseteq> set (map op_own_id ops)"
proof (induction ops)
  case Nil
  show ?case by (simp add: strokeOrder_def)
next
  case (Cons op ops)
  then show ?case by (cases op) (auto simp: strokeOrder_def)
qed

lemma map_of_Some_fst: "map_of kvs k = Some v \<Longrightarrow> k \<in> set (map fst kvs)"
  by (induction kvs) (auto split: if_splits)

lemma map_of_Some_list_all: "map_of kvs k = Some v \<Longrightarrow> list_all P kvs \<Longrightarrow> P (k, v)"
  by (induction kvs) (auto split: if_splits)

subsection \<open>The counters\<close>

lemma count_step_fold:
  "fold (count_step all s) xs (u, r) =
     (u + length (filter (targets_stroke s) xs), r + length (filter (restores all s) xs))"
proof (induction xs arbitrary: u r)
  case Nil
  show ?case by simp
next
  case (Cons op xs)
  show ?case
    by (cases op) (simp_all add: Cons.IH redo_target_def split: option.splits operation.splits)
qed

lemma visibility_counts_eq: "visibility_counts ops s = (undoCount ops s, redoCount ops s)"
  by (simp add: visibility_counts_def count_step_fold undoCount_def redoCount_def)

lemma isStrokeVisible_iff: "isStrokeVisible st s = (undoCount (operations st) s \<le> redoCount (operations st) s)"
  by (simp add: isStrokeVisible_def visibility_counts_eq)

lemma find_append:
  "List.find P (xs @ ys) = (case List.find P xs of Some x \<Rightarrow> Some x | None \<Rightarrow> List.find P ys)"
  by (induction xs) auto

lemma find_SomeD: "List.find P xs = Some x \<Longrightarrow> P x \<and> x \<in> set xs"
  by (induction xs) (auto split: if_splits)

lemma find_undo_is_undo:
  "List.find (is_undo_with_id tu) ops = Some op \<Longrightarrow> \<exists>target ts u. op = UndoOp tu target ts u"
  by (cases op) (auto dest: find_SomeD)

lemma redo_target_append_other:
  "\<not> is_undo_with_id tu op \<Longrightarrow> redo_target (ops @ [op]) tu = redo_target ops tu"
  by (simp add: redo_target_def find_append split: option.splits)

lemma redo_target_append_found:
  "list_ex (is_undo_with_id tu) ops \<Longrightarrow> redo_target (ops @ ys) tu = redo_target ops tu"
  by (auto simp: redo_target_def find_append list_ex_iff find_None_iff split: option.splits)

lemma redo_target_append_new:
  "\<not> list_ex (is_undo_with_id i) ops \<Longrightarrow>
     redo_target (ops @ [UndoOp i target ts u]) i = Some target"
  by (auto simp: redo_target_def find_append list_ex_iff split: option.splits dest: find_SomeD)

lemma redo_target_None_iff: "redo_target ops tu = None \<longleftrightarrow> \<not> list_ex (is_undo_with_id tu) ops"
  by (auto simp: redo_target_def list_ex_iff find_None_iff split: option.splits operation.splits
      dest: find_undo_is_undo find_SomeD)

lemma redo_target_Some_iff:
  "redo_target ops tu = Some s \<longleftrightarrow>
     (\<exists>ts u. List.find (is_undo_with_id tu) ops = Some (UndoOp tu s ts u))"
  by (auto simp: redo_target_def split: option.splits operation.splits dest: find_undo_is_undo)

subsection \<open>Reachable states are well formed\<close>

lemma redos_name_undos_append:
  assumes "redos_name_undos ops"
    and "\<And>i tu ts u. op = RedoOp i tu ts u \<Longrightarrow> list_ex (is_undo_with_id tu) ops"
  shows "redos_name_undos (ops @ [op])"
  using assms unfolding redos_name_undos_def list_all_iff list_ex_iff
  by (auto split: operation.splits)

lemma find_Some_list_ex: "List.find P xs = Some x \<Longrightarrow> list_ex P xs"
  by (auto simp: list_ex_iff dest: find_SomeD)

lemma wf_state_init: "wf_state init_state"
  by (simp add: wf_state_def init_state_def ids_distinct_def redos_name_undos_def
      store_follows_log_def strokeOrder_def)

lemma wf_state_createStroke:
  assumes "wf_state st" and "fresh st uuid"
  shows "wf_state (snd (createStroke uuid now user a_tool a_color a_width st))"
proof -
  have new: "uuid \<notin> set (map fst (strokes st))" "uuid \<notin> set (map op_own_id (operations st))"
    using assms(2) by (simp_all add: fresh_def issued_ids_def)
  have "ids_distinct (operations st @ [StrokeOp uuid now user])"
    using assms(1) new(2) by (simp add: wf_state_def ids_distinct_def)
  moreover have "redos_name_undos (operations st @ [StrokeOp uuid now user])"
    using assms(1) by (intro redos_name_undos_append) (simp_all add: wf_state_def)
  moreover have "store_follows_log (snd (createStroke uuid now user a_tool a_color a_width st))"
    using assms(1) new(1)
    by (simp add: wf_state_def store_follows_log_def createStroke_def Let_def map_fst_map_set
        strokeOrder_append list_all_map_set)
  ultimately show ?thesis
    by (simp add: wf_state_def createStroke_def Let_def)
qed

lemma wf_state_appendPoints:
  assumes "wf_state st"
  shows "wf_state (snd (appendPoints strokeId pts st))"
proof (cases "map_of (strokes st) strokeId")
  case None
  then show ?thesis using assms by (simp add: appendPoints_def)
next
  case (Some stroke)
  have "stroke_id stroke = strokeId"
    using map_of_Some_list_all [OF Some, of "\<lambda>(k, s). stroke_id s = k"] assms
    by (simp add: wf_state_def store_follows_log_def)
  then show ?thesis
    using assms Some map_of_Some_fst [OF Some]
    by (simp add: appendPoints_def wf_state_def store_follows_log_def map_fst_map_set
        list_all_map_set)
qed

lemma wf_state_completeStroke:
  assumes "wf_state st"
  shows "wf_state (snd (completeStroke strokeId st))"
proof (cases "map_of (strokes st) strokeId")
  case None
  then show ?thesis using assms by (simp add: completeStroke_def)
next
  case (Some stroke)
  have "stroke_id stroke = strokeId"
    using map_of_Some_list_all [OF Some, of "\<lambda>(k, s). stroke_id s = k"] assms
    by (simp add: wf_state_def store_follows_log_def)
  then show ?thesis
    using assms Some map_of_Some_fst [OF Some]
    by (simp add: completeStroke_def wf_state_def store_follows_log_def map_fst_map_set
        list_all_map_set)
qed

lemma wf_state_undoStroke:
  assumes "wf_state st" and "fresh st uuid"
  shows "wf_state (snd (undoStroke uuid now user target st))"
proof (cases "fst (undoStroke uuid now user target st)")
  case None
  then have "snd (undoStroke uuid now user target st) = st"
    by (simp add: undoStroke_def split: option.splits if_splits)
  then show ?thesis using assms(1) by simp
next
  case (Some i)
  then have eq: "snd (undoStroke uuid now user target st) =
      st\<lparr>operations := operations st @ [UndoOp uuid target now user]\<rparr>"
    by (simp add: undoStroke_def split: option.splits if_splits)
  have "uuid \<notin> set (map op_own_id (operations st))"
    using assms(2) by (simp add: fresh_def issued_ids_def)
  then have "ids_distinct (operations st @ [UndoOp uuid target now user])"
    using assms(1) by (simp add: wf_state_def ids_distinct_def)
  moreover have "redos_name_undos (operations st @ [UndoOp uuid target now user])"
    using assms(1) by (intro redos_name_undos_append) (simp_all add: wf_state_def)
  ultimately show ?thesis
    using assms(1) by (simp add: eq wf_state_def store_follows_log_def strokeOrder_append)
qed

lemma wf_state_redoStroke:
  assumes "wf_state st" and "fresh st uuid"
  shows "wf_state (snd (redoStroke uuid now user target st))"
proof (cases "fst (redoStroke uuid now user target st)")
  case False
  then have "snd (redoStroke uuid now user target st) = st"
    by (simp add: redoStroke_def split: option.splits if_splits)
  then show ?thesis using assms(1) by simp
next
  case True
  then have eq: "snd (redoStroke uuid now user target st) =
      st\<lparr>operations := operations st @ [RedoOp uuid target now user]\<rparr>"
    and found: "list_ex (is_undo_with_id target) (operations st)"
    by (auto simp: redoStroke_def split: option.splits if_splits dest: find_Some_list_ex)
  have "uuid \<notin> set (map op_own_id (operations st))"
    using assms(2) by (simp add: fresh_def issued_ids_def)
  then have "ids_distinct (operations st @ [RedoOp uuid target now user])"
    using assms(1) by (simp add: wf_state_def ids_distinct_def)
  moreover have "redos_name_undos (operations st @ [RedoOp uuid target now user])"
    using assms(1) found by (intro redos_name_undos_append) (simp_all add: wf_state_def)
  ultimately show ?thesis
    using assms(1) by (simp add: eq wf_state_def store_follows_log_def strokeOrder_append)
qed

lemma wf_state_exec: "wf_state st \<Longrightarrow> uuid_fresh_for st c \<Longrightarrow> wf_state (exec c st)"
  by (cases c)
    (simp_all add: wf_state_createStroke wf_state_appendPoints wf_state_completeStroke
      wf_state_undoStroke wf_state_redoStroke)

lemma wf_state_run: "valid_run cs st \<Longrightarrow> wf_state st \<Longrightarrow> wf_state (run cs st)"
  unfolding run_def
  by (induction cs arbitrary: st) (simp_all add: wf_state_exec)

lemma wf_state_reachable: "valid_run cs init_state \<Longrightarrow> wf_state (run cs init_state)"
  by (simp add: wf_state_run wf_state_init)

subsection \<open>The closed form and the specification's wording agree\<close>

lemma same_id_same_op:
  "ids_distinct ops \<Longrightarrow> a \<in> set ops \<Longrightarrow> b \<in> set ops \<Longrightarrow> op_own_id a = op_own_id b \<Longrightarrow> a = b"
  by (auto simp: ids_distinct_def distinct_map dest: inj_onD)

lemma find_undo_of_member:
  assumes "ids_distinct ops" and "UndoOp i target ts u \<in> set ops"
  shows "List.find (is_undo_with_id i) ops = Some (UndoOp i target ts u)"
proof (cases "List.find (is_undo_with_id i) ops")
  case None
  then show ?thesis using assms(2) by (auto simp: find_None_iff)
next
  case (Some op)
  then obtain target' ts' u' where op: "op = UndoOp i target' ts' u'"
    by (auto dest: find_undo_is_undo)
  have "op \<in> set ops" using Some by (auto dest: find_SomeD)
  then have "op = UndoOp i target ts u"
    using assms op by (intro same_id_same_op [of ops]) simp_all
  then show ?thesis using Some by simp
qed

lemma redo_target_eq_iff:
  assumes "ids_distinct ops"
  shows "redo_target ops tu = Some s \<longleftrightarrow> (\<exists>ts u. UndoOp tu s ts u \<in> set ops)"
  using assms by (auto simp: redo_target_Some_iff dest: find_SomeD find_undo_of_member)

lemma spec_undoCount_eq: "spec_undoCount ops s = undoCount ops s"
proof -
  have "(\<lambda>op. case op of UndoOp i target ts u \<Rightarrow> target = s | _ \<Rightarrow> False) = targets_stroke s"
    by (auto simp: fun_eq_iff split: operation.splits)
  then show ?thesis by (simp add: spec_undoCount_def undoCount_def)
qed

lemma spec_redoCount_eq:
  assumes "ids_distinct ops"
  shows "spec_redoCount ops s = redoCount ops s"
proof -
  have "(case op of
           RedoOp i targetUndoOpId ts u \<Rightarrow>
             (\<exists>undoOp \<in> set ops. case undoOp of
                 UndoOp j target ts' u' \<Rightarrow> j = targetUndoOpId \<and> target = s
               | _ \<Rightarrow> False)
         | _ \<Rightarrow> False) = restores ops s op" for op
  proof (cases op)
    case (RedoOp i tu ts u)
    have "(\<exists>undoOp \<in> set ops. case undoOp of
                 UndoOp j target ts' u' \<Rightarrow> j = tu \<and> target = s
               | _ \<Rightarrow> False) = (\<exists>ts u. UndoOp tu s ts u \<in> set ops)"
    proof -
      have "(case undoOp of UndoOp j target ts' u' \<Rightarrow> j = tu \<and> target = s | _ \<Rightarrow> False)
              = (\<exists>ts u. undoOp = UndoOp tu s ts u)" for undoOp
        by (cases undoOp) auto
      then show ?thesis by auto
    qed
    then show ?thesis
      using RedoOp by (simp add: redo_target_eq_iff [OF assms])
  qed simp_all
  then show ?thesis by (simp add: spec_redoCount_def redoCount_def)
qed

subsection \<open>The log and the store only grow\<close>

lemma operations_exec:
  "operations (exec c st) = operations st \<or> (\<exists>op. operations (exec c st) = operations st @ [op])"
  by (cases c)
    (auto simp: createStroke_def appendPoints_def completeStroke_def undoStroke_def
      redoStroke_def Let_def split: option.splits)

lemma prefix_operations_exec: "prefix (operations st) (operations (exec c st))"
  using operations_exec [of c st] by auto

lemma prefix_operations_run: "prefix (operations st) (operations (run cs st))"
  unfolding run_def
proof (induction cs arbitrary: st)
  case Nil
  show ?case by simp
next
  case (Cons c cs)
  have "prefix (operations st) (operations (exec c st))"
    by (rule prefix_operations_exec)
  also have "prefix (operations (exec c st)) (operations (fold exec cs (exec c st)))"
    by (rule Cons.IH)
  finally show ?case by simp
qed

lemma list_ex_operations_run:
  "list_ex P (operations st) \<Longrightarrow> list_ex P (operations (run cs st))"
  using prefix_operations_run [of st cs] by (auto simp: prefix_def list_ex_iff)

lemma store_grows_refl: "store_grows st st"
  by (simp add: store_grows_def)

lemma store_grows_trans: "store_grows st st' \<Longrightarrow> store_grows st' st'' \<Longrightarrow> store_grows st st''"
  unfolding store_grows_def by (meson prefix_order.trans)

lemma map_of_None_fst: "k \<notin> set (map fst kvs) \<Longrightarrow> map_of kvs k = None"
  by (induction kvs) auto

lemma store_grows_exec:
  assumes "uuid_fresh_for st c"
  shows "store_grows st (exec c st)"
proof (cases c)
  case (CreateStroke uuid now user a_tool a_color a_width)
  then have "map_of (strokes st) uuid = None"
    using assms by (simp add: fresh_def issued_ids_def map_of_None_fst)
  then show ?thesis
    using CreateStroke
    by (auto simp: store_grows_def createStroke_def Let_def map_of_map_set)
next
  case (AppendPoints strokeId pts)
  then show ?thesis
    by (auto simp: store_grows_def appendPoints_def map_of_map_set split: option.splits)
next
  case (CompleteStroke strokeId)
  then show ?thesis
    by (auto simp: store_grows_def completeStroke_def map_of_map_set split: option.splits)
next
  case (UndoStroke uuid now user target)
  then show ?thesis
    by (auto simp: store_grows_def undoStroke_def split: option.splits)
next
  case (RedoStroke uuid now user target)
  then show ?thesis
    by (auto simp: store_grows_def redoStroke_def split: option.splits)
qed

lemma store_grows_run: "valid_run cs st \<Longrightarrow> store_grows st (run cs st)"
  unfolding run_def
proof (induction cs arbitrary: st)
  case Nil
  show ?case by (simp add: store_grows_refl)
next
  case (Cons c cs)
  then have "store_grows st (exec c st)" "store_grows (exec c st) (fold exec cs (exec c st))"
    by (simp_all add: store_grows_exec)
  then show ?case by (auto intro: store_grows_trans)
qed

subsection \<open>When a redo is accepted\<close>

lemma find_None_list_ex: "List.find P xs = None \<longleftrightarrow> \<not> list_ex P xs"
  by (auto simp: find_None_iff list_ex_iff)

lemma redoStroke_accepts_iff:
  "fst (redoStroke uuid now user t st) \<longleftrightarrow>
     list_ex (is_undo_with_id t) (operations st) \<and> \<not> list_ex (is_redo_of t) (operations st)"
  by (auto simp: redoStroke_def find_None_list_ex split: option.splits dest: find_Some_list_ex)

lemma redoStroke_accepted:
  "fst (redoStroke uuid now user t st) \<Longrightarrow>
     redoStroke uuid now user t st =
       (True, st\<lparr>operations := operations st @ [RedoOp uuid t now user]\<rparr>)"
  by (auto simp: redoStroke_def split: option.splits if_splits)

lemma redoStroke_rejected:
  "\<not> fst (redoStroke uuid now user t st) \<Longrightarrow> redoStroke uuid now user t st = (False, st)"
  by (auto simp: redoStroke_def split: option.splits if_splits)

lemma redone_after_redoStroke:
  assumes "list_ex (is_undo_with_id t) (operations st)"
  shows "list_ex (is_redo_of t) (operations (snd (redoStroke uuid now user t st)))"
proof (cases "fst (redoStroke uuid now user t st)")
  case True
  then show ?thesis by (simp add: redoStroke_accepted)
next
  case False
  then show ?thesis using assms by (simp add: redoStroke_rejected redoStroke_accepts_iff)
qed

lemma redoStroke_twice:
  "\<not> fst (redoStroke uuid' now' user' t (snd (redoStroke uuid now user t st)))"
proof (cases "fst (redoStroke uuid now user t st)")
  case True
  then show ?thesis by (simp add: redoStroke_accepted redoStroke_accepts_iff)
next
  case False
  then show ?thesis by (simp add: redoStroke_rejected redoStroke_accepts_iff)
qed

subsection \<open>Positions in the creation order\<close>

lemma indexOf_absent: "a \<notin> set xs \<Longrightarrow> indexOf xs a = -1"
  by (induction xs) (auto simp: Let_def)

lemma indexOf_present: "a \<in> set xs \<Longrightarrow> 0 \<le> indexOf xs a \<and> indexOf xs a < int (length xs)"
  by (induction xs) (auto simp: Let_def)

lemma indexOf_Cons_other: "a \<in> set xs \<Longrightarrow> a \<noteq> x \<Longrightarrow> indexOf (x # xs) a = indexOf xs a + 1"
  using indexOf_present [of a xs] by (auto simp: Let_def)

lemma indexOf_append_left: "a \<in> set xs \<Longrightarrow> indexOf (xs @ ys) a = indexOf xs a"
proof (induction xs)
  case Nil
  then show ?case by simp
next
  case (Cons x xs)
  show ?case
  proof (cases "x = a")
    case True
    then show ?thesis by simp
  next
    case False
    then have "a \<in> set xs" using Cons.prems by simp
    then show ?thesis
      using False Cons.IH by (simp add: indexOf_Cons_other)
  qed
qed

lemma indexOf_append_here: "a \<notin> set xs \<Longrightarrow> indexOf (xs @ a # ys) a = int (length xs)"
proof (induction xs)
  case Nil
  show ?case by simp
next
  case (Cons x xs)
  then show ?case by (auto simp: Let_def)
qed

lemma sorted_indexOf_filter:
  assumes "distinct xs"
  shows "sorted (map (indexOf xs) (filter P xs))"
  using assms
proof (induction xs)
  case Nil
  show ?case by simp
next
  case (Cons x xs)
  have shift: "map (indexOf (x # xs)) (filter P xs) = map (\<lambda>a. indexOf xs a + 1) (filter P xs)"
  proof (intro map_cong refl)
    fix a assume "a \<in> set (filter P xs)"
    then have "a \<in> set xs" "a \<noteq> x" using Cons.prems by auto
    then show "indexOf (x # xs) a = indexOf xs a + 1" by (rule indexOf_Cons_other)
  qed
  have "sorted (map (indexOf xs) (filter P xs))"
    using Cons by simp
  then have tail: "sorted (map (\<lambda>a. indexOf xs a + 1) (filter P xs))"
    by (simp add: sorted_map sorted_wrt_iff_nth_less)
  have low: "\<forall>a \<in> set (filter P xs). 0 \<le> indexOf xs a + 1"
    using indexOf_present [of _ xs] by fastforce
  show ?case
  proof (cases "P x")
    case True
    have zero: "indexOf (x # xs) x = 0" by simp
    show ?thesis using True tail low by (simp add: shift zero del: indexOf.simps(2))
  next
    case False
    then show ?thesis using tail by (simp add: shift del: indexOf.simps(2))
  qed
qed

lemma strokeOrder_conv: "strokeOrder ops = map op_own_id (filter is_stroke_op ops)"
proof -
  have "(case op of StrokeOp s ts u \<Rightarrow> s | _ \<Rightarrow> []) = op_own_id op" if "is_stroke_op op" for op
    using that by (cases op) simp_all
  then show ?thesis
    by (simp add: strokeOrder_def)
qed

lemma distinct_strokeOrder: "ids_distinct ops \<Longrightarrow> distinct (strokeOrder ops)"
  by (simp add: strokeOrder_conv ids_distinct_def distinct_map_filter)

lemma wf_state_keys:
  assumes "wf_state st"
  shows "map fst (strokes st) = strokeOrder (operations st)"
    and "distinct (map fst (strokes st))"
    and "(k, s) \<in> set (strokes st) \<Longrightarrow> stroke_id s = k"
    and "map_of (strokes st) k = Some s \<longleftrightarrow> (k, s) \<in> set (strokes st)"
proof -
  show keys: "map fst (strokes st) = strokeOrder (operations st)"
    using assms by (simp add: wf_state_def store_follows_log_def)
  show d: "distinct (map fst (strokes st))"
    using assms by (simp add: keys distinct_strokeOrder wf_state_def)
  show "(k, s) \<in> set (strokes st) \<Longrightarrow> stroke_id s = k"
    using assms by (auto simp: wf_state_def store_follows_log_def list_all_iff)
  show "map_of (strokes st) k = Some s \<longleftrightarrow> (k, s) \<in> set (strokes st)"
    using d by (auto dest: map_of_SomeD)
qed

subsection \<open>The sort finds its input sorted\<close>

text \<open>In a well-formed state the sort of \<open>getVisibleStrokes\<close> finds its input sorted.\<close>

lemma visible_entries_ids:
  assumes "wf_state st"
  shows "map (stroke_id \<circ> snd) (filter (\<lambda>(k, s). P k s) (strokes st)) =
           map fst (filter (\<lambda>(k, s). P k s) (strokes st))"
  using wf_state_keys(3) [OF assms] by (intro map_cong) auto

lemma filter_entries_keys:
  "map fst (filter (\<lambda>(k, s). V k) kvs) = filter V (map fst kvs)"
  by (induction kvs) auto

lemma getVisibleStrokes_wf:
  assumes "wf_state st"
  shows "getVisibleStrokes st =
           map snd (filter (\<lambda>(strokeId, stroke). isStrokeVisible st strokeId) (strokes st))"
proof -
  let ?so = "strokeOrder (operations st)"
  let ?res = "map snd (filter (\<lambda>(strokeId, stroke). isStrokeVisible st strokeId) (strokes st))"
  have "map (\<lambda>a. indexOf ?so (stroke_id a)) ?res =
          map (indexOf ?so) (map (stroke_id \<circ> snd)
            (filter (\<lambda>(strokeId, stroke). isStrokeVisible st strokeId) (strokes st)))"
    by simp
  also have "\<dots> = map (indexOf ?so) (filter (isStrokeVisible st) ?so)"
    by (simp only: visible_entries_ids [OF assms] filter_entries_keys wf_state_keys(1) [OF assms])
  finally have "sorted (map (\<lambda>a. indexOf ?so (stroke_id a)) ?res)"
    using wf_state_keys(1,2) [OF assms] by (simp only: sorted_indexOf_filter)
  then show ?thesis
    by (simp add: getVisibleStrokes_def sort_key_id_if_sorted)
qed

lemma getVisibleStrokes_ids:
  assumes "wf_state st"
  shows "map stroke_id (getVisibleStrokes st) =
           filter (isStrokeVisible st) (strokeOrder (operations st))"
proof -
  have "map stroke_id (getVisibleStrokes st) =
          map (stroke_id \<circ> snd)
            (filter (\<lambda>(strokeId, stroke). isStrokeVisible st strokeId) (strokes st))"
    by (simp add: getVisibleStrokes_wf [OF assms])
  then show ?thesis
    by (simp only: visible_entries_ids [OF assms] filter_entries_keys wf_state_keys(1) [OF assms])
qed

lemma getVisibleStrokes_set:
  assumes "wf_state st"
  shows "set (getVisibleStrokes st) =
           {stroke. \<exists>strokeId. map_of (strokes st) strokeId = Some stroke
                       \<and> isStrokeVisible st strokeId}"
  by (auto simp: getVisibleStrokes_wf [OF assms] wf_state_keys(4) [OF assms] image_iff)

subsection \<open>The last entry a filter keeps\<close>

lemma last_filter_split:
  "filter P xs \<noteq> [] \<Longrightarrow>
     \<exists>us vs. xs = us @ last (filter P xs) # vs \<and> P (last (filter P xs)) \<and> (\<forall>v \<in> set vs. \<not> P v)"
proof (induction xs rule: rev_induct)
  case Nil
  then show ?case by simp
next
  case (snoc y ys)
  show ?case
  proof (cases "P y")
    case True
    then have "ys @ [y] = ys @ last (filter P (ys @ [y])) # []" by simp
    then show ?thesis using True by fastforce
  next
    case False
    then have ne: "filter P ys \<noteq> []" and same: "filter P (ys @ [y]) = filter P ys"
      using snoc.prems by simp_all
    from snoc.IH [OF ne] obtain us vs where
      "ys = us @ last (filter P ys) # vs" "P (last (filter P ys))" "\<forall>v \<in> set vs. \<not> P v"
      by blast
    then have "ys @ [y] = us @ last (filter P (ys @ [y])) # (vs @ [y])"
      "P (last (filter P (ys @ [y])))" "\<forall>v \<in> set (vs @ [y]). \<not> P v"
      using False by (simp_all add: same)
    then show ?thesis by blast
  qed
qed

lemma candidates_wf:
  assumes "wf_state st"
  shows "filter (\<lambda>s. userId s = user \<and> complete s) (getVisibleStrokes st) =
           map snd (filter (candidate st user) (strokes st))"
proof -
  have "(\<lambda>x. (case x of (strokeId, stroke) \<Rightarrow> isStrokeVisible st strokeId)
             \<and> ((\<lambda>s. userId s = user \<and> complete s) \<circ> snd) x) = candidate st user"
    by (auto simp: candidate_def fun_eq_iff)
  then show ?thesis
    by (simp add: getVisibleStrokes_wf [OF assms] filter_map)
qed

lemma getLastVisibleStrokeByUser_wf:
  assumes "wf_state st"
  shows "getLastVisibleStrokeByUser st user =
           (if filter (candidate st user) (strokes st) = [] then None
            else Some (fst (last (filter (candidate st user) (strokes st)))))"
proof (cases "filter (candidate st user) (strokes st) = []")
  case True
  then show ?thesis
    by (simp add: getLastVisibleStrokeByUser_def candidates_wf [OF assms])
next
  case False
  let ?c = "filter (candidate st user) (strokes st)"
  have "last ?c \<in> set (strokes st)"
    using last_in_set [OF False] by auto
  then have "stroke_id (snd (last ?c)) = fst (last ?c)"
    using wf_state_keys(3) [OF assms, of "fst (last ?c)" "snd (last ?c)"] by simp
  moreover have "map snd ?c ! (length ?c - 1) = snd (last ?c)"
    using False by (simp add: last_conv_nth)
  ultimately show ?thesis
    using False by (simp add: getLastVisibleStrokeByUser_def candidates_wf [OF assms] Let_def)
qed

lemma indexOf_before_last:
  assumes "distinct (map fst kvs)" and "kvs = us @ (k, s) # vs" and "(k', s') \<in> set us \<union> {(k, s)}"
  shows "indexOf (map fst kvs) k' \<le> indexOf (map fst kvs) k"
proof -
  have k: "k \<notin> set (map fst us)"
    using assms(1,2) by auto
  have here: "indexOf (map fst kvs) k = int (length (map fst us))"
    using indexOf_append_here [OF k, of "map fst vs"] assms(2) by simp
  show ?thesis
  proof (cases "(k', s') = (k, s)")
    case True
    then show ?thesis by simp
  next
    case False
    then have "k' \<in> set (map fst us)"
      using assms(3) by force
    then have "indexOf (map fst kvs) k' = indexOf (map fst us) k'"
      "indexOf (map fst us) k' < int (length (map fst us))"
      using indexOf_append_left [of k' "map fst us" "k # map fst vs"] indexOf_present [of k' "map fst us"]
        assms(2) by simp_all
    then show ?thesis using here by simp
  qed
qed

subsection \<open>The counters when the log grows\<close>

lemma operations_exec_emitted: "operations (exec c st) = operations st @ emitted st c"
  by (cases c)
    (auto simp: createStroke_def appendPoints_def completeStroke_def undoStroke_def
      redoStroke_def Let_def find_None_list_ex split: option.splits dest: find_Some_list_ex)

lemma undoCount_append:
  "undoCount (ops @ [op]) s = undoCount ops s + (if targets_stroke s op then 1 else 0)"
  by (simp add: undoCount_def)

lemma restores_append_old:
  assumes "redos_name_undos ops" and "x \<in> set ops"
  shows "restores (ops @ ys) s x = restores ops s x"
proof (cases x)
  case (RedoOp i tu ts u)
  then have "list_ex (is_undo_with_id tu) ops"
    using assms by (auto simp: redos_name_undos_def list_all_iff)
  then show ?thesis
    using RedoOp by (simp add: redo_target_append_found)
qed simp_all

lemma redoCount_append:
  assumes "redos_name_undos ops"
  shows "redoCount (ops @ [op]) s =
           redoCount ops s + (if restores (ops @ [op]) s op then 1 else 0)"
proof -
  have "filter (restores (ops @ [op]) s) ops = filter (restores ops s) ops"
    using assms by (intro filter_cong refl restores_append_old)
  then show ?thesis
    by (simp add: redoCount_def)
qed

lemma redoCount_append_stroke:
  "redos_name_undos ops \<Longrightarrow> redoCount (ops @ [StrokeOp i ts u]) s = redoCount ops s"
  by (simp add: redoCount_append)

lemma redoCount_append_undo:
  "redos_name_undos ops \<Longrightarrow> redoCount (ops @ [UndoOp i target ts u]) s = redoCount ops s"
  by (simp add: redoCount_append)

lemma redoCount_append_redo:
  "redos_name_undos ops \<Longrightarrow>
     redoCount (ops @ [RedoOp i tu ts u]) s =
       redoCount ops s + (if redo_target ops tu = Some s then 1 else 0)"
  by (simp add: redoCount_append redo_target_append_other)

lemma list_ex_append_one: "list_ex P (xs @ [x]) = (list_ex P xs \<or> P x)"
  by (auto simp: list_ex_iff)

subsection \<open>At most one undo of a stroke is open\<close>

lemma pending_undo_kept:
  assumes "list_ex (pending_undo ops s) ops" and "\<And>j tu ts u. new \<noteq> RedoOp j tu ts u"
  shows "list_ex (pending_undo (ops @ [new]) s) (ops @ [new])"
proof -
  from assms(1) obtain op where op: "op \<in> set ops" "pending_undo ops s op"
    by (auto simp: list_ex_iff)
  have "\<not> is_redo_of i new" for i
    using assms(2) by (cases new) auto
  then have "pending_undo (ops @ [new]) s op"
    using op(2) by (cases op) (auto simp: list_ex_append_one)
  then show ?thesis
    using op(1) by (auto simp: list_ex_iff)
qed

lemma balanced_init: "balanced []"
  by (simp add: balanced_def undoCount_def redoCount_def)

lemma balanced_append_stroke:
  assumes "redos_name_undos ops" and "balanced ops"
  shows "balanced (ops @ [StrokeOp i ts u])"
proof -
  have "list_ex (pending_undo (ops @ [StrokeOp i ts u]) s) (ops @ [StrokeOp i ts u])"
    if "list_ex (pending_undo ops s) ops" for s
    using that by (rule pending_undo_kept) simp
  then show ?thesis
    using assms unfolding balanced_def
    by (simp add: undoCount_append redoCount_append_stroke)
qed

lemma unnamed_fresh_id:
  assumes "redos_name_undos ops" and "i \<notin> set (map op_own_id ops)"
  shows "\<not> list_ex (is_redo_of i) ops"
proof
  assume "list_ex (is_redo_of i) ops"
  then obtain op where op: "op \<in> set ops" "is_redo_of i op"
    by (auto simp: list_ex_iff)
  obtain j ts u where "op = RedoOp j i ts u"
    using op(2) by (cases op) auto
  then have "list_ex (is_undo_with_id i) ops"
    using assms(1) op(1) by (auto simp: redos_name_undos_def list_all_iff)
  then obtain un where un: "un \<in> set ops" "is_undo_with_id i un"
    by (auto simp: list_ex_iff)
  have "op_own_id un = i"
    using un(2) by (cases un) auto
  then have "i \<in> set (map op_own_id ops)"
    using un(1) by force
  then show False using assms(2) by simp
qed

lemma balanced_append_undo:
  assumes "redos_name_undos ops" and "balanced ops"
    and "i \<notin> set (map op_own_id ops)"
    and "undoCount ops target \<le> redoCount ops target"
  shows "balanced (ops @ [UndoOp i target ts u])"
  unfolding balanced_def
proof (intro allI conjI impI)
  let ?new = "UndoOp i target ts u"
  fix s
  have "undoCount ops s \<le> redoCount ops s + 1"
    using assms(2) by (simp add: balanced_def)
  then show "undoCount (ops @ [?new]) s \<le> redoCount (ops @ [?new]) s + 1"
    using assms(1,4) by (auto simp: undoCount_append redoCount_append_undo)
  assume hidden: "redoCount (ops @ [?new]) s < undoCount (ops @ [?new]) s"
  show "list_ex (pending_undo (ops @ [?new]) s) (ops @ [?new])"
  proof (cases "s = target")
    case True
    have "\<not> list_ex (is_redo_of i) (ops @ [?new])"
      using unnamed_fresh_id [OF assms(1,3)] by (simp add: list_ex_append_one)
    then have "pending_undo (ops @ [?new]) s ?new"
      using True by simp
    then show ?thesis by (simp add: list_ex_append_one)
  next
    case False
    then have "redoCount ops s < undoCount ops s"
      using hidden assms(1) by (simp add: undoCount_append redoCount_append_undo)
    then have "list_ex (pending_undo ops s) ops"
      using assms(2) by (simp add: balanced_def)
    then show ?thesis
      by (rule pending_undo_kept) simp
  qed
qed

lemma balanced_append_redo:
  assumes "ids_distinct ops" and "redos_name_undos ops" and "balanced ops"
    and "list_ex (is_undo_with_id tu) ops"
  shows "balanced (ops @ [RedoOp i tu ts u])"
  unfolding balanced_def
proof (intro allI conjI impI)
  let ?new = "RedoOp i tu ts u"
  fix s
  have bound: "undoCount ops s \<le> redoCount ops s + 1"
    using assms(3) by (simp add: balanced_def)
  then show "undoCount (ops @ [?new]) s \<le> redoCount (ops @ [?new]) s + 1"
    using assms(2) by (simp add: undoCount_append redoCount_append_redo)
  assume hidden: "redoCount (ops @ [?new]) s < undoCount (ops @ [?new]) s"
  have other: "redo_target ops tu \<noteq> Some s"
    using hidden bound assms(2) by (auto simp: undoCount_append redoCount_append_redo)
  then have "redoCount ops s < undoCount ops s"
    using hidden assms(2) by (simp add: undoCount_append redoCount_append_redo)
  then have "list_ex (pending_undo ops s) ops"
    using assms(3) by (simp add: balanced_def)
  then obtain op where op: "op \<in> set ops" "pending_undo ops s op"
    by (auto simp: list_ex_iff)
  obtain j ts' u' where un: "op = UndoOp j s ts' u'" "\<not> list_ex (is_redo_of j) ops"
    using op(2) by (cases op) auto
  have "j \<noteq> tu"
  proof
    assume "j = tu"
    then have "redo_target ops tu = Some s"
      using op(1) un(1) by (auto simp: redo_target_eq_iff [OF assms(1)])
    then show False using other by simp
  qed
  then have "pending_undo (ops @ [?new]) s op"
    using un by (simp add: list_ex_append_one)
  then show "list_ex (pending_undo (ops @ [?new]) s) (ops @ [?new])"
    using op(1) by (auto simp: list_ex_iff)
qed

lemma balanced_exec:
  assumes "wf_state st" and "uuid_fresh_for st c" and "balanced (operations st)"
  shows "balanced (operations (exec c st))"
  unfolding operations_exec_emitted
proof (cases c)
  case (CreateStroke uuid now user a_tool a_color a_width)
  have "balanced (operations st @ [StrokeOp uuid now user])"
    using assms(1,3) by (intro balanced_append_stroke) (simp_all add: wf_state_def)
  then show "balanced (operations st @ emitted st c)"
    by (simp add: CreateStroke)
next
  case (AppendPoints strokeId pts)
  then show "balanced (operations st @ emitted st c)" using assms(3) by simp
next
  case (CompleteStroke strokeId)
  then show "balanced (operations st @ emitted st c)" using assms(3) by simp
next
  case (UndoStroke uuid now user target)
  have "balanced (operations st @ [UndoOp uuid target now user])"
    if "isStrokeVisible st target"
    using assms that UndoStroke
    by (intro balanced_append_undo)
      (simp_all add: wf_state_def fresh_def issued_ids_def isStrokeVisible_iff)
  then show "balanced (operations st @ emitted st c)"
    using assms(3) by (simp add: UndoStroke)
next
  case (RedoStroke uuid now user t)
  have "balanced (operations st @ [RedoOp uuid t now user])"
    if "list_ex (is_undo_with_id t) (operations st)"
    using assms(1,3) that by (intro balanced_append_redo) (simp_all add: wf_state_def)
  then show "balanced (operations st @ emitted st c)"
    using assms(3) by (simp add: RedoStroke)
qed

lemma balanced_run:
  "valid_run cs st \<Longrightarrow> wf_state st \<Longrightarrow> balanced (operations st) \<Longrightarrow>
     balanced (operations (run cs st))"
  unfolding run_def
  by (induction cs arbitrary: st) (simp_all add: balanced_exec wf_state_exec)

lemma balanced_reachable: "valid_run cs init_state \<Longrightarrow> balanced (operations (run cs init_state))"
proof -
  assume "valid_run cs init_state"
  moreover have "balanced (operations (init_state :: 'a drawing_state))"
    by (simp add: init_state_def balanced_init)
  ultimately show ?thesis
    by (intro balanced_run wf_state_init)
qed

subsection \<open>Redoing the open undo\<close>

lemma pending_undo_redo_restores:
  assumes "wf_state st" and "balanced (operations st)"
    and "\<not> isStrokeVisible st S"
  shows "\<exists>i ts u. UndoOp i S ts u \<in> set (operations st)
           \<and> (\<forall>uuid now user. fst (redoStroke uuid now user i st)
                 \<and> isStrokeVisible (snd (redoStroke uuid now user i st)) S)"
proof -
  let ?ops = "operations st"
  have wf: "ids_distinct ?ops" "redos_name_undos ?ops"
    using assms(1) by (simp_all add: wf_state_def)
  have hidden: "redoCount ?ops S < undoCount ?ops S"
    using assms(3) by (simp add: isStrokeVisible_iff)
  then have "list_ex (pending_undo ?ops S) ?ops"
    using assms(2) by (simp add: balanced_def)
  then obtain op where op: "op \<in> set ?ops" "pending_undo ?ops S op"
    by (auto simp: list_ex_iff)
  obtain i ts u where un: "op = UndoOp i S ts u" "\<not> list_ex (is_redo_of i) ?ops"
    using op(2) by (cases op) auto
  have mem: "UndoOp i S ts u \<in> set ?ops"
    using op(1) un(1) by simp
  then have ex: "list_ex (is_undo_with_id i) ?ops"
    by (force simp: list_ex_iff)
  have target: "redo_target ?ops i = Some S"
    using mem by (auto simp: redo_target_eq_iff [OF wf(1)])
  have "fst (redoStroke uuid now user i st)
        \<and> isStrokeVisible (snd (redoStroke uuid now user i st)) S" for uuid now user
  proof -
    have acc: "fst (redoStroke uuid now user i st)"
      using ex un(2) by (simp add: redoStroke_accepts_iff)
    have "undoCount ?ops S \<le> redoCount ?ops S + 1"
      using assms(2) by (simp add: balanced_def)
    then have "isStrokeVisible (st\<lparr>operations := ?ops @ [RedoOp uuid i now user]\<rparr>) S"
      using wf(2) target by (simp add: isStrokeVisible_iff undoCount_append redoCount_append_redo)
    then show ?thesis
      using acc by (simp add: redoStroke_accepted)
  qed
  then show ?thesis using mem by blast
qed

subsection \<open>What two calls add to the log\<close>

lemma grounded_emitted: "list_all (grounded (operations st)) (emitted st c)"
  by (cases c) simp_all

lemma restores_grounded:
  "grounded ops x \<Longrightarrow> restores (ops @ es) s x = restores ops s x"
  by (cases x) (simp_all add: redo_target_append_found)

lemma open_undos_append:
  assumes "redos_name_undos ops" and "list_all (grounded ops) es"
  shows "open_undos (ops @ es) s = open_undos ops s + net ops s es"
proof -
  have "filter (restores (ops @ es) s) ops = filter (restores ops s) ops"
    using assms(1) by (intro filter_cong refl restores_append_old)
  moreover have "filter (restores (ops @ es) s) es = filter (restores ops s) es"
    using assms(2) by (intro filter_cong refl restores_grounded) (simp add: list_all_iff)
  ultimately show ?thesis
    by (simp add: open_undos_def net_def undoCount_def redoCount_def)
qed

lemma isStrokeVisible_open: "isStrokeVisible st s = (open_undos (operations st) s \<le> 0)"
  by (simp add: isStrokeVisible_iff open_undos_def)

lemma net_append: "net ops s (es @ fs) = net ops s es + net ops s fs"
  by (simp add: net_def)

lemma net_Nil: "net ops s [] = 0"
  by (simp add: net_def)

lemma isStrokeVisible_exec:
  assumes "wf_state st"
  shows "isStrokeVisible (exec c st) s =
           (open_undos (operations st) s + net (operations st) s (emitted st c) \<le> 0)"
  using assms
  by (simp add: isStrokeVisible_open operations_exec_emitted open_undos_append
      grounded_emitted wf_state_def)

lemma key_kept_exec:
  assumes "uuid_of c \<noteq> Some k"
  shows "(map_of (strokes (exec c st)) k = None) = (map_of (strokes st) k = None)"
  using assms
  by (cases c)
    (auto simp: createStroke_def appendPoints_def completeStroke_def undoStroke_def
      redoStroke_def Let_def map_of_map_set split: option.splits if_splits)

lemma emitted_after_undo:
  assumes "wf_state st" and "uuid_of c \<noteq> Some target"
  shows "emitted (exec c st) (UndoStroke uuid now user target) =
           (if map_of (strokes st) target \<noteq> None
               \<and> open_undos (operations st) target + net (operations st) target (emitted st c) \<le> 0
            then [UndoOp uuid target now user] else [])"
  using assms by (simp add: key_kept_exec isStrokeVisible_exec)

lemma undo_id_emitted: "list_ex (is_undo_with_id i) (emitted st c) \<Longrightarrow> uuid_of c = Some i"
  by (cases c) (auto split: if_splits)

lemma emitted_after_redo:
  assumes "uuid_of c \<noteq> Some t"
  shows "emitted (exec c st) (RedoStroke uuid now user t) =
           (if list_ex (is_undo_with_id t) (operations st)
               \<and> \<not> list_ex (is_redo_of t) (operations st)
               \<and> \<not> list_ex (is_redo_of t) (emitted st c)
            then [RedoOp uuid t now user] else [])"
  using assms undo_id_emitted [of t st c]
  by (auto simp: operations_exec_emitted)

lemma emitted_after_other:
  "emitted (exec c st) (CreateStroke uuid now user a_tool a_color a_width) =
     emitted st (CreateStroke uuid now user a_tool a_color a_width)"
  "emitted (exec c st) (AppendPoints strokeId pts) = []"
  "emitted (exec c st) (CompleteStroke strokeId) = []"
  by simp_all

lemma net_undo: "net ops s [UndoOp i target ts u] = (if target = s then 1 else 0)"
  by (simp add: net_def)

lemma net_redo: "net ops s [RedoOp i t ts u] = (if redo_target ops t = Some s then - 1 else 0)"
  by (simp add: net_def)

lemma net_stroke: "net ops s [StrokeOp i ts u] = 0"
  by (simp add: net_def)

lemma ids_apart_sym: "ids_apart c1 c2 \<Longrightarrow> ids_apart c2 c1"
  by (auto simp: ids_apart_def)

lemma emitted_second:
  assumes "wf_state st" and "ids_apart c1 c2"
  shows "emitted (exec c1 st) c2 = emitted_after st (emitted st c1) c2"
proof (cases c2)
  case (UndoStroke uuid now user target)
  then have "uuid_of c1 \<noteq> Some target"
    using assms(2) by (auto simp: ids_apart_def)
  then show ?thesis
    unfolding UndoStroke emitted_after.simps by (rule emitted_after_undo [OF assms(1)])
next
  case (RedoStroke uuid now user t)
  then have "uuid_of c1 \<noteq> Some t"
    using assms(2) by (auto simp: ids_apart_def)
  then show ?thesis
    unfolding RedoStroke emitted_after.simps by (rule emitted_after_redo)
qed simp_all

lemma emitted_as_after: "wf_state st \<Longrightarrow> emitted st c = emitted_after st [] c"
  by (cases c) (simp_all add: isStrokeVisible_open net_Nil)

lemma net_swap_after:
  assumes "\<not> undo_meets_redo st c1 c2" and "\<not> undo_meets_redo st c2 c1"
  shows "net (operations st) s (emitted_after st [] c1)
           + net (operations st) s (emitted_after st (emitted_after st [] c1) c2) =
         net (operations st) s (emitted_after st [] c2)
           + net (operations st) s (emitted_after st (emitted_after st [] c2) c1)"
proof (cases c1)
  case c1: (CreateStroke uuid1 now1 user1 a_tool1 a_color1 a_width1)
  show ?thesis
    by (cases c2) (simp_all add: c1 net_Nil net_stroke)
next
  case c1: (AppendPoints strokeId1 pts1)
  show ?thesis
    by (cases c2) (simp_all add: c1 net_Nil)
next
  case c1: (CompleteStroke strokeId1)
  show ?thesis
    by (cases c2) (simp_all add: c1 net_Nil)
next
  case c1: (UndoStroke uuid1 now1 user1 t1)
  show ?thesis
  proof (cases c2)
    case (UndoStroke uuid2 now2 user2 t2)
    then show ?thesis
      by (simp add: c1 net_Nil net_undo)
  next
    case (RedoStroke uuid2 now2 user2 t2)
    then show ?thesis
      using assms(1) by (simp add: c1 net_Nil net_undo net_redo)
  qed (simp_all add: c1 net_Nil net_stroke)
next
  case c1: (RedoStroke uuid1 now1 user1 t1)
  show ?thesis
  proof (cases c2)
    case (UndoStroke uuid2 now2 user2 t2)
    then show ?thesis
      using assms(2) by (simp add: c1 net_Nil net_undo net_redo)
  next
    case (RedoStroke uuid2 now2 user2 t2)
    then show ?thesis
      by (simp add: c1 net_Nil net_redo)
  qed (simp_all add: c1 net_Nil net_stroke)
qed

lemma net_swap:
  assumes "wf_state st" and "ids_apart c1 c2"
    and "\<not> undo_meets_redo st c1 c2" and "\<not> undo_meets_redo st c2 c1"
  shows "net (operations st) s (emitted st c1) + net (operations st) s (emitted (exec c1 st) c2) =
         net (operations st) s (emitted st c2) + net (operations st) s (emitted (exec c2 st) c1)"
  using net_swap_after [OF assms(3,4), of s]
  by (simp only: emitted_second [OF assms(1,2)] emitted_second [OF assms(1) ids_apart_sym [OF assms(2)]]
      emitted_as_after [OF assms(1), symmetric])

lemma grounded_second:
  assumes "wf_state st" and "ids_apart c1 c2"
  shows "list_all (grounded (operations st)) (emitted (exec c1 st) c2)"
  unfolding emitted_second [OF assms]
  by (cases c2) simp_all

lemma isStrokeVisible_exec_exec:
  assumes "wf_state st" and "ids_apart c1 c2"
  shows "isStrokeVisible (exec c2 (exec c1 st)) s =
           (open_undos (operations st) s
              + (net (operations st) s (emitted st c1)
                   + net (operations st) s (emitted (exec c1 st) c2)) \<le> 0)"
proof -
  have "operations (exec c2 (exec c1 st)) =
      operations st @ (emitted st c1 @ emitted (exec c1 st) c2)"
    by (simp add: operations_exec_emitted)
  moreover have "list_all (grounded (operations st)) (emitted st c1 @ emitted (exec c1 st) c2)"
    using grounded_emitted [of st c1] grounded_second [OF assms] by simp
  moreover have "redos_name_undos (operations st)"
    using assms(1) by (simp add: wf_state_def)
  ultimately show ?thesis
    by (simp only: isStrokeVisible_open open_undos_append net_append)
qed

lemma exec_commute_visibility:
  assumes "wf_state st" and "ids_apart c1 c2"
    and "\<not> undo_meets_redo st c1 c2" and "\<not> undo_meets_redo st c2 c1"
  shows "isStrokeVisible (exec c2 (exec c1 st)) s = isStrokeVisible (exec c1 (exec c2 st)) s"
proof -
  note one = isStrokeVisible_exec_exec [OF assms(1,2), of s]
  note two = isStrokeVisible_exec_exec [OF assms(1) ids_apart_sym [OF assms(2)], of s]
  show ?thesis
    unfolding one two by (rule arg_cong [OF net_swap [OF assms]])
qed

lemma undo_other_stroke:
  assumes "wf_state st" and "S1 \<noteq> S2"
  shows "isStrokeVisible (snd (undoStroke uuid now user S1 st)) S2 = isStrokeVisible st S2"
  using isStrokeVisible_exec [OF assms(1), of "UndoStroke uuid now user S1" S2] assms(2)
  by (simp add: isStrokeVisible_open net_undo net_Nil)

section \<open>The claims\<close>

subsection \<open>Visibility\<close>

text \<open>
  C1. In every state the class can reach, and for every stroke id \<open>S\<close>,
  \<open>isStrokeVisible\<close> returns true exactly when the number of undo operations of the log
  that target \<open>S\<close> is at most the number of redo operations of the log whose target undo
  operation targets \<open>S\<close>.
\<close>

theorem isStrokeVisible_counts:
  assumes "valid_run cs init_state"
  shows "isStrokeVisible (run cs init_state) S =
           (spec_undoCount (operations (run cs init_state)) S
              \<le> spec_redoCount (operations (run cs init_state)) S)"
proof -
  have "ids_distinct (operations (run cs init_state))"
    using wf_state_reachable [OF assms] by (simp add: wf_state_def)
  then show ?thesis
    by (simp add: isStrokeVisible_iff spec_undoCount_eq spec_redoCount_eq)
qed

theorem isStrokeVisible_counts_witness:
  "isStrokeVisible (run scenario_C_cmds init_state) ''s2''
   \<and> \<not> isStrokeVisible (run scenario_C_cmds init_state) ''s1''
   \<and> spec_undoCount (operations (run scenario_C_cmds init_state)) ''s1'' = 1
   \<and> spec_redoCount (operations (run scenario_C_cmds init_state)) ''s1'' = 0
   \<and> spec_undoCount (operations (run scenario_C_cmds init_state)) ''s2'' = 1
   \<and> spec_redoCount (operations (run scenario_C_cmds init_state)) ''s2'' = 1"
proof -
  have v: "valid_run scenario_C_cmds init_state"
    by code_simp
  have c: "spec_undoCount (operations (run scenario_C_cmds init_state)) ''s1'' = 1"
    "spec_redoCount (operations (run scenario_C_cmds init_state)) ''s1'' = 0"
    "spec_undoCount (operations (run scenario_C_cmds init_state)) ''s2'' = 1"
    "spec_redoCount (operations (run scenario_C_cmds init_state)) ''s2'' = 1"
    by code_simp+
  show ?thesis
    using isStrokeVisible_counts [OF v, of "''s1''"] isStrokeVisible_counts [OF v, of "''s2''"] c
    by simp
qed

subsection \<open>Calls in either order\<close>

text \<open>
  C2, as the code has it. Take a state the class can reach and two calls, by any authors,
  neither naming the id the other draws from \<open>uuidv4()\<close>. Unless one of them is an undo
  of a stroke and the other the redo of an undo of that same stroke, running the two in
  either order leaves every stroke with the same visibility. In particular an undo of
  one stroke leaves the visibility of every other stroke as it was.
\<close>

theorem calls_commute_on_visibility:
  assumes "valid_run cs init_state"
    and "ids_apart c1 c2"
    and "\<not> undo_meets_redo (run cs init_state) c1 c2"
    and "\<not> undo_meets_redo (run cs init_state) c2 c1"
  shows "(\<forall>S. isStrokeVisible (exec c2 (exec c1 (run cs init_state))) S
              = isStrokeVisible (exec c1 (exec c2 (run cs init_state))) S)
         \<and> (\<forall>uuid now user S1 S2. S1 \<noteq> S2 \<longrightarrow>
               isStrokeVisible (snd (undoStroke uuid now user S1 (run cs init_state))) S2
                 = isStrokeVisible (run cs init_state) S2)"
proof (intro conjI allI impI)
  fix S
  show "isStrokeVisible (exec c2 (exec c1 (run cs init_state))) S
          = isStrokeVisible (exec c1 (exec c2 (run cs init_state))) S"
    by (rule exec_commute_visibility [OF wf_state_reachable [OF assms(1)] assms(2,3,4)])
next
  fix uuid now user S1 S2
  assume "S1 \<noteq> (S2 :: string)"
  then show "isStrokeVisible (snd (undoStroke uuid now user S1 (run cs init_state))) S2
          = isStrokeVisible (run cs init_state) S2"
    by (rule undo_other_stroke [OF wf_state_reachable [OF assms(1)]])
qed

theorem calls_commute_on_visibility_witness:
  "(\<forall>S. isStrokeVisible (exec (RedoStroke ''r1'' 6 ''a2'' ''u1'')
                            (exec (UndoStroke ''u2'' 5 ''a1'' ''s1'')
                               (run scenario_B_cmds init_state))) S
         = isStrokeVisible (exec (UndoStroke ''u2'' 5 ''a1'' ''s1'')
                              (exec (RedoStroke ''r1'' 6 ''a2'' ''u1'')
                                 (run scenario_B_cmds init_state))) S)
   \<and> isStrokeVisible (snd (undoStroke ''u2'' 5 ''a1'' ''s1'' (run scenario_B_cmds init_state))) ''s3''
       = isStrokeVisible (run scenario_B_cmds init_state) ''s3''"
proof -
  have v: "valid_run scenario_B_cmds init_state"
    and a: "ids_apart (UndoStroke ''u2'' 5 ''a1'' ''s1'' :: int command)
              (RedoStroke ''r1'' 6 ''a2'' ''u1'')"
    and n1: "\<not> undo_meets_redo (run scenario_B_cmds init_state)
               (UndoStroke ''u2'' 5 ''a1'' ''s1'') (RedoStroke ''r1'' 6 ''a2'' ''u1'')"
    and n2: "\<not> undo_meets_redo (run scenario_B_cmds init_state)
               (RedoStroke ''r1'' 6 ''a2'' ''u1'') (UndoStroke ''u2'' 5 ''a1'' ''s1'')"
    and d: "''s1'' \<noteq> ''s3''"
    by code_simp+
  note r = calls_commute_on_visibility [OF v a n1 n2]
  show ?thesis
    using r [THEN conjunct1] r [THEN conjunct2, rule_format, OF d] by (rule conjI)
qed

text \<open>
  C2 as it is written fails. After one stroke and its undo, a second undo of the
  stroke by the first author and the redo of the first undo by another author do not
  commute: the undo is refused before the redo and accepted after it.
\<close>

theorem undo_and_redo_do_not_commute:
  "isStrokeVisible
     (exec (RedoStroke ''r1'' 4 ''a2'' ''u1'')
        (exec (UndoStroke ''u2'' 3 ''a1'' ''s1'')
           (run [CreateStroke ''s1'' 1 ''a1'' Brush ''#000000'' (4::int),
                 UndoStroke ''u1'' 2 ''a1'' ''s1''] init_state))) ''s1''
   \<and> \<not> isStrokeVisible
     (exec (UndoStroke ''u2'' 3 ''a1'' ''s1'')
        (exec (RedoStroke ''r1'' 4 ''a2'' ''u1'')
           (run [CreateStroke ''s1'' 1 ''a1'' Brush ''#000000'' (4::int),
                 UndoStroke ''u1'' 2 ''a1'' ''s1''] init_state))) ''s1''"
  by code_simp

subsection \<open>Undo requests\<close>

text \<open>
  C3. \<open>undoStroke\<close> (requestUndo) returns \<open>null\<close> exactly when the target is not a key
  of the stroke map or the target stroke is not visible. In every other case it returns
  the generated id and the state after the call is the state before it with one undo
  operation, carrying that id and the target, pushed on the log. The author of the
  stroke plays no part: the call succeeds also when the caller is someone else.
\<close>

theorem undoStroke_outcome:
  "((fst (undoStroke uuid now user target st) = None) =
      (map_of (strokes st) target = None \<or> \<not> isStrokeVisible st target))
   \<and> (fst (undoStroke uuid now user target st) \<noteq> None \<longrightarrow>
        undoStroke uuid now user target st =
          (Some uuid, st\<lparr>operations := operations st @ [UndoOp uuid target now user]\<rparr>))
   \<and> (map_of (strokes st) target = Some s \<and> isStrokeVisible st target \<and> userId s \<noteq> user \<longrightarrow>
        fst (undoStroke uuid now user target st) = Some uuid)"
  by (auto simp: undoStroke_def split: option.splits)

theorem undoStroke_outcome_witness:
  "undoStroke ''u1'' 5 ''a1'' ''s2'' scenario_A =
     (Some ''u1'',
      scenario_A\<lparr>operations := operations scenario_A @ [UndoOp ''u1'' ''s2'' 5 ''a1'']\<rparr>)"
proof -
  have "fst (undoStroke ''u1'' 5 ''a1'' ''s2'' scenario_A) \<noteq> None"
    by code_simp
  with undoStroke_outcome [of "''u1''" 5 "''a1''" "''s2''" scenario_A] show ?thesis
    by blast
qed

subsection \<open>Redo requests\<close>

text \<open>
  C4. \<open>redoStroke\<close> (requestRedo) returns \<open>false\<close> exactly when no undo operation of the
  log carries the id it is given or some redo operation of the log already names that
  id; in every other case the state after the call is the state before it with one redo
  operation, naming that id, pushed on the log. A second call with the same id, right
  after the first, returns \<open>false\<close> and leaves the state, hence every visibility, as the
  first call left it; when the id is that of an undo operation of the log, so does a
  second call after any further calls.
\<close>

theorem redoStroke_outcome:
  "((\<not> fst (redoStroke uuid now user t st)) =
      (\<not> list_ex (is_undo_with_id t) (operations st) \<or> list_ex (is_redo_of t) (operations st)))
   \<and> (fst (redoStroke uuid now user t st) \<longrightarrow>
        redoStroke uuid now user t st =
          (True, st\<lparr>operations := operations st @ [RedoOp uuid t now user]\<rparr>))
   \<and> redoStroke uuid' now' user' t (snd (redoStroke uuid now user t st)) =
        (False, snd (redoStroke uuid now user t st))
   \<and> (\<forall>S. isStrokeVisible (snd (redoStroke uuid' now' user' t (snd (redoStroke uuid now user t st)))) S
          = isStrokeVisible (snd (redoStroke uuid now user t st)) S)
   \<and> (list_ex (is_undo_with_id t) (operations st) \<longrightarrow>
        (\<forall>cs. redoStroke uuid' now' user' t (run cs (snd (redoStroke uuid now user t st))) =
                (False, run cs (snd (redoStroke uuid now user t st)))))"
proof -
  have twice: "redoStroke uuid' now' user' t (snd (redoStroke uuid now user t st)) =
        (False, snd (redoStroke uuid now user t st))"
    by (rule redoStroke_rejected) (rule redoStroke_twice)
  have later: "redoStroke uuid' now' user' t (run cs (snd (redoStroke uuid now user t st))) =
                (False, run cs (snd (redoStroke uuid now user t st)))"
    if "list_ex (is_undo_with_id t) (operations st)" for cs
  proof (rule redoStroke_rejected)
    have "list_ex (is_redo_of t) (operations (run cs (snd (redoStroke uuid now user t st))))"
      using that by (intro list_ex_operations_run redone_after_redoStroke)
    then show "\<not> fst (redoStroke uuid' now' user' t (run cs (snd (redoStroke uuid now user t st))))"
      by (simp add: redoStroke_accepts_iff)
  qed
  show ?thesis
    using twice later by (auto simp: redoStroke_accepts_iff redoStroke_accepted)
qed

theorem redoStroke_outcome_witness:
  "redoStroke ''r1'' 9 ''a2'' ''u1'' undone_state =
     (True, undone_state\<lparr>operations := operations undone_state @ [RedoOp ''r1'' ''u1'' 9 ''a2'']\<rparr>)
   \<and> \<not> fst (redoStroke ''r2'' 11 ''a1'' ''u1''
          (run [CreateStroke ''s3'' 10 ''a1'' Brush ''#00ff00'' 1]
             (snd (redoStroke ''r1'' 9 ''a2'' ''u1'' undone_state))))"
proof -
  have ok: "fst (redoStroke ''r1'' 9 ''a2'' ''u1'' undone_state)"
    and ex: "list_ex (is_undo_with_id ''u1'') (operations undone_state)"
    by code_simp+
  note r = redoStroke_outcome [where uuid = "''r1''" and now = 9 and user = "''a2''"
      and t = "''u1''" and st = undone_state and uuid' = "''r2''" and now' = 11 and user' = "''a1''"]
  have "redoStroke ''r1'' 9 ''a2'' ''u1'' undone_state =
     (True, undone_state\<lparr>operations := operations undone_state @ [RedoOp ''r1'' ''u1'' 9 ''a2'']\<rparr>)"
    using r ok by blast
  moreover have "redoStroke ''r2'' 11 ''a1'' ''u1''
          (run [CreateStroke ''s3'' 10 ''a1'' Brush ''#00ff00'' 1]
             (snd (redoStroke ''r1'' 9 ''a2'' ''u1'' undone_state))) =
       (False, run [CreateStroke ''s3'' 10 ''a1'' Brush ''#00ff00'' 1]
             (snd (redoStroke ''r1'' 9 ''a2'' ''u1'' undone_state)))"
    using r ex by blast
  ultimately show ?thesis by (simp only: fst_conv simp_thms)
qed

subsection \<open>Rejections\<close>

text \<open>
  C5. Whenever \<open>appendPoints\<close> or \<open>completeStroke\<close> returns \<open>false\<close>, \<open>undoStroke\<close>
  returns \<open>null\<close>, or \<open>redoStroke\<close> returns \<open>false\<close>, the state after the call (stroke
  map and log) is the state before it.
\<close>

theorem rejections_pure:
  "(\<not> fst (appendPoints strokeId pts st) \<longrightarrow> snd (appendPoints strokeId pts st) = st)
   \<and> (\<not> fst (completeStroke strokeId st) \<longrightarrow> snd (completeStroke strokeId st) = st)
   \<and> (fst (undoStroke uuid now user strokeId st) = None \<longrightarrow>
        snd (undoStroke uuid now user strokeId st) = st)
   \<and> (\<not> fst (redoStroke uuid now user undoId st) \<longrightarrow>
        snd (redoStroke uuid now user undoId st) = st)"
  by (simp add: appendPoints_def completeStroke_def undoStroke_def redoStroke_def
      split: option.splits)

theorem rejections_pure_witness:
  "snd (appendPoints ''zz'' [Point 1 1 1] scenario_A) = scenario_A
   \<and> snd (completeStroke ''zz'' scenario_A) = scenario_A
   \<and> snd (undoStroke ''u1'' 5 ''a1'' ''zz'' scenario_A) = scenario_A
   \<and> snd (redoStroke ''u1'' 5 ''a1'' ''zz'' scenario_A) = scenario_A"
proof -
  have "\<not> fst (appendPoints ''zz'' [Point 1 1 1] scenario_A)"
    and "\<not> fst (completeStroke ''zz'' scenario_A)"
    and "fst (undoStroke ''u1'' 5 ''a1'' ''zz'' scenario_A) = None"
    and "\<not> fst (redoStroke ''u1'' 5 ''a1'' ''zz'' scenario_A)"
    by code_simp+
  with rejections_pure [where strokeId = "''zz''" and pts = "[Point 1 1 1]" and st = scenario_A
      and uuid = "''u1''" and now = 5 and user = "''a1''" and undoId = "''zz''"]
  show ?thesis by blast
qed

subsection \<open>Visible strokes in creation order\<close>

text \<open>
  C6. In every state the class can reach, the ids of the strokes \<open>getVisibleStrokes\<close>
  returns are the stroke ids of the log, in the order of their stroke operations, with
  the ids that are not visible left out; each stroke returned is the one the map holds
  under its id, and the strokes returned are exactly the strokes of the map that are
  visible. The order is that of the log alone: two reachable states with the same
  sequence of stroke operations list the strokes visible in both in the same order.
\<close>

theorem getVisibleStrokes_creation_order:
  assumes "valid_run cs init_state"
  shows "map stroke_id (getVisibleStrokes (run cs init_state)) =
           filter (isStrokeVisible (run cs init_state))
             (strokeOrder (operations (run cs init_state)))
         \<and> set (getVisibleStrokes (run cs init_state)) =
             {stroke. \<exists>strokeId. map_of (strokes (run cs init_state)) strokeId = Some stroke
                        \<and> isStrokeVisible (run cs init_state) strokeId}
         \<and> (\<forall>stroke \<in> set (getVisibleStrokes (run cs init_state)).
               map_of (strokes (run cs init_state)) (stroke_id stroke) = Some stroke)
         \<and> (\<forall>cs'. valid_run cs' init_state
                \<and> strokeOrder (operations (run cs' init_state)) =
                    strokeOrder (operations (run cs init_state)) \<longrightarrow>
                filter (isStrokeVisible (run cs' init_state))
                  (map stroke_id (getVisibleStrokes (run cs init_state))) =
                filter (isStrokeVisible (run cs init_state))
                  (map stroke_id (getVisibleStrokes (run cs' init_state))))"
proof -
  let ?st = "run cs init_state"
  have wf: "wf_state ?st"
    by (rule wf_state_reachable [OF assms])
  have ids: "map stroke_id (getVisibleStrokes ?st) =
      filter (isStrokeVisible ?st) (strokeOrder (operations ?st))"
    by (rule getVisibleStrokes_ids [OF wf])
  have stored: "map_of (strokes ?st) (stroke_id stroke) = Some stroke"
    if "stroke \<in> set (getVisibleStrokes ?st)" for stroke
  proof -
    from that obtain k where k: "(k, stroke) \<in> set (strokes ?st)"
      by (auto simp: getVisibleStrokes_wf [OF wf])
    then have "stroke_id stroke = k"
      by (rule wf_state_keys(3) [OF wf])
    then show ?thesis using k by (simp add: wf_state_keys(4) [OF wf])
  qed
  have common: "filter (isStrokeVisible (run cs' init_state)) (map stroke_id (getVisibleStrokes ?st)) =
      filter (isStrokeVisible ?st) (map stroke_id (getVisibleStrokes (run cs' init_state)))"
    if "valid_run cs' init_state"
      and "strokeOrder (operations (run cs' init_state)) = strokeOrder (operations ?st)" for cs'
  proof -
    have "map stroke_id (getVisibleStrokes (run cs' init_state)) =
        filter (isStrokeVisible (run cs' init_state)) (strokeOrder (operations ?st))"
      using getVisibleStrokes_ids [OF wf_state_reachable [OF that(1)]] that(2) by simp
    then show ?thesis
      by (simp add: ids conj_commute)
  qed
  show ?thesis
    using ids getVisibleStrokes_set [OF wf] stored common by blast
qed

theorem getVisibleStrokes_creation_order_witness:
  "map stroke_id (getVisibleStrokes (run scenario_B_cmds init_state)) = [''s1'', ''s3'']
   \<and> filter (isStrokeVisible (run scenario_B2_cmds init_state))
         (map stroke_id (getVisibleStrokes (run scenario_B_cmds init_state))) =
       filter (isStrokeVisible (run scenario_B_cmds init_state))
         (map stroke_id (getVisibleStrokes (run scenario_B2_cmds init_state)))"
proof -
  have v: "valid_run scenario_B_cmds init_state"
    and v': "valid_run scenario_B2_cmds init_state"
    and same: "strokeOrder (operations (run scenario_B2_cmds init_state)) =
                 strokeOrder (operations (run scenario_B_cmds init_state))"
    and vis: "filter (isStrokeVisible (run scenario_B_cmds init_state))
                (strokeOrder (operations (run scenario_B_cmds init_state))) = [''s1'', ''s3'']"
    by code_simp+
  note r = getVisibleStrokes_creation_order [OF v]
  have "map stroke_id (getVisibleStrokes (run scenario_B_cmds init_state)) = [''s1'', ''s3'']"
    by (rule trans [OF r [THEN conjunct1] vis])
  moreover have "filter (isStrokeVisible (run scenario_B2_cmds init_state))
         (map stroke_id (getVisibleStrokes (run scenario_B_cmds init_state))) =
       filter (isStrokeVisible (run scenario_B_cmds init_state))
         (map stroke_id (getVisibleStrokes (run scenario_B2_cmds init_state)))"
    using r v' same by blast
  ultimately show ?thesis by blast
qed

subsection \<open>Append-only growth\<close>

text \<open>
  C7. Over any sequence of calls, from any state: the log before is a prefix of the log
  after (so it is no longer and none of its entries has changed), every stroke of the map
  before is still in the map after, and its points before are a prefix of its points
  after. What the calls draw from \<open>uuidv4()\<close> is assumed fresh.
\<close>

theorem append_only:
  assumes "valid_run cs st"
  shows "length (operations st) \<le> length (operations (run cs st))
         \<and> prefix (operations st) (operations (run cs st))
         \<and> (\<forall>strokeId stroke. map_of (strokes st) strokeId = Some stroke \<longrightarrow>
               (\<exists>stroke'. map_of (strokes (run cs st)) strokeId = Some stroke'
                  \<and> prefix (points stroke) (points stroke')))"
  using store_grows_run [OF assms] prefix_operations_run [of st cs]
  by (auto simp: store_grows_def dest: prefix_length_le)

theorem append_only_witness:
  "prefix (operations scenario_A) (operations (run later_cmds scenario_A))
   \<and> (\<exists>stroke'. map_of (strokes (run later_cmds scenario_A)) ''s2'' = Some stroke'
         \<and> prefix [Point 0 0 3] (points stroke'))"
proof -
  have v: "valid_run later_cmds scenario_A"
    by code_simp
  have found: "map_of (strokes scenario_A) ''s2'' =
      Some \<lparr>stroke_id = ''s2'', userId = ''a2'', tool = Eraser, color = ''#ffffff'',
             width = 9, points = [Point 0 0 3], complete = True\<rparr>"
    by code_simp
  show ?thesis
    using append_only [OF v] found by fastforce
qed

subsection \<open>Undos against one stroke\<close>

text \<open>
  C8, as the code has it. \<open>undoStroke\<close> refuses a stroke that is not visible, so in every
  state the class can reach the undo operations that target a stroke outnumber the redo
  operations that restore it by one at most, and whenever a stroke is hidden the log
  holds an undo operation targeting it whose redo is accepted and makes the stroke
  visible: one redo is always enough.
\<close>

theorem single_redo_suffices:
  assumes "valid_run cs init_state"
  shows "(\<forall>S. spec_undoCount (operations (run cs init_state)) S
              \<le> spec_redoCount (operations (run cs init_state)) S + 1)
         \<and> (\<forall>S. \<not> isStrokeVisible (run cs init_state) S \<longrightarrow>
               (\<exists>i ts u. UndoOp i S ts u \<in> set (operations (run cs init_state))
                  \<and> (\<forall>uuid now user.
                        fst (redoStroke uuid now user i (run cs init_state))
                        \<and> isStrokeVisible (snd (redoStroke uuid now user i (run cs init_state))) S)))"
proof -
  let ?st = "run cs init_state"
  have wf: "wf_state ?st"
    by (rule wf_state_reachable [OF assms])
  have bal: "balanced (operations ?st)"
    by (rule balanced_reachable [OF assms])
  have "spec_undoCount (operations ?st) S \<le> spec_redoCount (operations ?st) S + 1" for S
    using bal wf by (simp add: balanced_def spec_undoCount_eq spec_redoCount_eq wf_state_def)
  then show ?thesis
    using pending_undo_redo_restores [OF wf bal] by blast
qed

theorem single_redo_suffices_witness:
  "spec_undoCount (operations (run scenario_B_cmds init_state)) ''s2''
     \<le> spec_redoCount (operations (run scenario_B_cmds init_state)) ''s2'' + 1
   \<and> (\<exists>i ts u. UndoOp i ''s2'' ts u \<in> set (operations (run scenario_B_cmds init_state))
         \<and> (\<forall>uuid now user.
               fst (redoStroke uuid now user i (run scenario_B_cmds init_state))
               \<and> isStrokeVisible
                   (snd (redoStroke uuid now user i (run scenario_B_cmds init_state))) ''s2''))"
proof -
  have v: "valid_run scenario_B_cmds init_state"
    and hidden: "\<not> isStrokeVisible (run scenario_B_cmds init_state) ''s2''"
    by code_simp+
  show ?thesis
    using single_redo_suffices [OF v] hidden by blast
qed

text \<open>
  C8 as it is written fails: no run of the class reaches a log in which the undo
  operations targeting a stroke exceed the redo operations restoring it by two; and in
  the example the claim gives, the undo of the second author is refused.
\<close>

theorem two_redos_never_required:
  "\<not> (\<exists>(cs :: int command list) S.
         valid_run cs init_state
         \<and> spec_redoCount (operations (run cs init_state)) S + 2
             \<le> spec_undoCount (operations (run cs init_state)) S)
   \<and> fst (undoStroke ''u2'' 3 ''a2'' ''s1''
            (run [CreateStroke ''s1'' 1 ''a1'' Brush ''#000000'' (4::int),
                  UndoStroke ''u1'' 2 ''a1'' ''s1''] init_state)) = None"
proof
  show "\<not> (\<exists>(cs :: int command list) S.
         valid_run cs init_state
         \<and> spec_redoCount (operations (run cs init_state)) S + 2
             \<le> spec_undoCount (operations (run cs init_state)) S)"
  proof
    assume "\<exists>(cs :: int command list) S.
         valid_run cs init_state
         \<and> spec_redoCount (operations (run cs init_state)) S + 2
             \<le> spec_undoCount (operations (run cs init_state)) S"
    then obtain cs :: "int command list" and S where v: "valid_run cs init_state"
      and two: "spec_redoCount (operations (run cs init_state)) S + 2
                  \<le> spec_undoCount (operations (run cs init_state)) S"
      by blast
    have "ids_distinct (operations (run cs init_state))"
      using wf_state_reachable [OF v] by (simp add: wf_state_def)
    then have "undoCount (operations (run cs init_state)) S
        \<le> redoCount (operations (run cs init_state)) S + 1 \<Longrightarrow> False"
      using two by (simp add: spec_undoCount_eq spec_redoCount_eq)
    then show False
      using balanced_reachable [OF v] by (simp add: balanced_def)
  qed
  show "fst (undoStroke ''u2'' 3 ''a2'' ''s1''
            (run [CreateStroke ''s1'' 1 ''a1'' Brush ''#000000'' (4::int),
                  UndoStroke ''u1'' 2 ''a1'' ''s1''] init_state)) = None"
    by code_simp
qed

subsection \<open>The last stroke of an author\<close>

text \<open>
  C9. In every state the class can reach, \<open>getLastVisibleStrokeByUser\<close> returns
  \<open>null\<close> exactly when the map holds no stroke that is visible, complete and by the given
  author; an id it returns is that of such a stroke, and no such stroke stands later in
  the creation order of the log.
\<close>

theorem getLastVisibleStrokeByUser_latest:
  assumes "valid_run cs init_state"
  shows "((getLastVisibleStrokeByUser (run cs init_state) A = None) =
            (\<not> (\<exists>k s. map_of (strokes (run cs init_state)) k = Some s
                   \<and> isStrokeVisible (run cs init_state) k \<and> complete s \<and> userId s = A)))
         \<and> (\<forall>k. getLastVisibleStrokeByUser (run cs init_state) A = Some k \<longrightarrow>
               (\<exists>s. map_of (strokes (run cs init_state)) k = Some s
                  \<and> isStrokeVisible (run cs init_state) k \<and> complete s \<and> userId s = A)
               \<and> (\<forall>k' s'. map_of (strokes (run cs init_state)) k' = Some s'
                     \<and> isStrokeVisible (run cs init_state) k' \<and> complete s' \<and> userId s' = A \<longrightarrow>
                     indexOf (strokeOrder (operations (run cs init_state))) k'
                       \<le> indexOf (strokeOrder (operations (run cs init_state))) k))"
proof -
  let ?st = "run cs init_state"
  let ?c = "filter (candidate ?st A) (strokes ?st)"
  have wf: "wf_state ?st"
    by (rule wf_state_reachable [OF assms])
  note res = getLastVisibleStrokeByUser_wf [OF wf, of A]
  have cand: "(map_of (strokes ?st) k = Some s \<and> isStrokeVisible ?st k \<and> complete s \<and> userId s = A)
                = ((k, s) \<in> set ?c)" for k s
    by (auto simp: wf_state_keys(4) [OF wf] candidate_def)
  have none: "(getLastVisibleStrokeByUser ?st A = None) =
      (\<not> (\<exists>k s. map_of (strokes ?st) k = Some s \<and> isStrokeVisible ?st k \<and> complete s \<and> userId s = A))"
  proof -
    have "(?c = []) = (\<not> (\<exists>k s. (k, s) \<in> set ?c))"
      by (cases ?c) auto
    then show ?thesis
      unfolding cand by (simp add: res)
  qed
  have some: "(\<exists>s. map_of (strokes ?st) k = Some s \<and> isStrokeVisible ?st k \<and> complete s \<and> userId s = A)
        \<and> (\<forall>k' s'. map_of (strokes ?st) k' = Some s' \<and> isStrokeVisible ?st k' \<and> complete s'
                \<and> userId s' = A \<longrightarrow>
              indexOf (strokeOrder (operations ?st)) k' \<le> indexOf (strokeOrder (operations ?st)) k)"
    if "getLastVisibleStrokeByUser ?st A = Some k" for k
  proof -
    from that have ne: "?c \<noteq> []" and k: "k = fst (last ?c)"
      by (auto simp: res split: if_splits)
    obtain s where last: "last ?c = (k, s)"
      using k by (cases "last ?c") simp
    from last_filter_split [OF ne] obtain us vs where
      split: "strokes ?st = us @ (k, s) # vs"
      and rest: "\<forall>v \<in> set vs. \<not> candidate ?st A v"
      unfolding last by blast
    have "(k, s) \<in> set ?c"
      using last_in_set [OF ne] last by simp
    then have first: "\<exists>s. map_of (strokes ?st) k = Some s \<and> isStrokeVisible ?st k \<and> complete s
        \<and> userId s = A"
      unfolding cand [symmetric] by blast
    have "indexOf (strokeOrder (operations ?st)) k' \<le> indexOf (strokeOrder (operations ?st)) k"
      if "(k', s') \<in> set ?c" for k' s'
    proof -
      have "(k', s') \<in> set (strokes ?st)" "candidate ?st A (k', s')"
        using that by simp_all
      then have "(k', s') \<in> set us \<union> {(k, s)}"
        using rest unfolding split by auto
      then show ?thesis
        using indexOf_before_last [OF wf_state_keys(2) [OF wf] split]
        by (simp only: wf_state_keys(1) [OF wf])
    qed
    then show ?thesis
      using first unfolding cand by blast
  qed
  show ?thesis
    using none some by blast
qed

theorem getLastVisibleStrokeByUser_latest_witness:
  "(\<exists>s. map_of (strokes (run scenario_L_cmds init_state)) ''s1'' = Some s
       \<and> isStrokeVisible (run scenario_L_cmds init_state) ''s1'' \<and> complete s \<and> userId s = ''a1'')
   \<and> \<not> (\<exists>k s. map_of (strokes (run scenario_L_cmds init_state)) k = Some s
           \<and> isStrokeVisible (run scenario_L_cmds init_state) k \<and> complete s \<and> userId s = ''a3'')"
proof -
  have v: "valid_run scenario_L_cmds init_state"
    and a1: "getLastVisibleStrokeByUser (run scenario_L_cmds init_state) ''a1'' = Some ''s1''"
    and a3: "getLastVisibleStrokeByUser (run scenario_L_cmds init_state) ''a3'' = None"
    by code_simp+
  show ?thesis
    using getLastVisibleStrokeByUser_latest [OF v, of "''a1''"]
      getLastVisibleStrokeByUser_latest [OF v, of "''a3''"] a1 a3
    by blast
qed

subsection \<open>Points after completion\<close>



end
